theory Spec2Isabelle
  imports Main "HOL-Library.Sublist" "HOL-Library.Char_ord" "HOL-Library.List_Lexorder"
    "HOL-Library.Multiset" "HOL-Library.AList"
begin

section \<open>Python string operations used by the splitter\<close>

text \<open>
  Keys and unit identifiers are Python \<open>str\<close> values, modelled as \<open>string\<close>.
  \<open>sorted\<close> on strings is the lexicographic order on characters, which is the order
  that \<open>Char_ord\<close> and \<open>List_Lexorder\<close> give to \<open>char list\<close>.
\<close>

definition endswith :: "string \<Rightarrow> string \<Rightarrow> bool" where
  \<comment> \<open>\<open>s.endswith(suf)\<close>\<close>
  "endswith s suf = suffix suf s"

definition startswith :: "string \<Rightarrow> string \<Rightarrow> bool" where
  \<comment> \<open>\<open>s.startswith(pre)\<close>, the test behind the \<open>Prefix=\<close> argument of a listing\<close>
  "startswith s pre = prefix pre s"

definition rsplit_last :: "string \<Rightarrow> string" where
  \<comment> \<open>\<open>k.rsplit("/", 1)[-1]\<close>: what follows the last slash, the whole string if there is none\<close>
  "rsplit_last k = rev (takeWhile (\<lambda>c. c \<noteq> CHR ''/'') (rev k))"

definition drop_last :: "nat \<Rightarrow> string \<Rightarrow> string" where
  \<comment> \<open>\<open>s[:-n]\<close> for \<open>n > 0\<close>\<close>
  "drop_last n s = take (length s - n) s"

definition rstrip_slash :: "string \<Rightarrow> string" where
  \<comment> \<open>\<open>s.rstrip('/')\<close>\<close>
  "rstrip_slash s = rev (dropWhile (\<lambda>c. c = CHR ''/'') (rev s))"

section \<open>The key-set differ\<close>

definition extract_dates_from_keys :: "string list \<Rightarrow> string set" where
  "extract_dates_from_keys keys =
     fold (\<lambda>k dates.
             let base = rsplit_last k
             in if endswith base ''.parquet'' then insert (drop_last 8 base) dates else dates)
          keys {}"

definition extract_dates_from_marker_keys :: "string list \<Rightarrow> string set" where
  "extract_dates_from_marker_keys keys =
     fold (\<lambda>k dates.
             let base = rsplit_last k
             in if endswith base ''.json'' then insert (drop_last 5 base) dates else dates)
          keys {}"

definition missing_dates_of :: "string list \<Rightarrow> string list \<Rightarrow> string list" where
  \<comment> \<open>lines 135 to 138 of \<open>process_kind\<close>: \<open>sorted(input_dates - done_dates)\<close>\<close>
  "missing_dates_of in_keys marker_keys =
     (let input_dates = extract_dates_from_keys in_keys;
          done_dates = extract_dates_from_marker_keys marker_keys
      in sorted_list_of_set (input_dates - done_dates))"

text \<open>
  The specification's wording of a unit identifier: the final path segment of a key (the part
  after the last separator, itself free of separators) with the suffix of the key's role
  stripped; a key whose final segment does not carry the suffix contributes nothing.
\<close>

definition spec_unit_ids :: "string \<Rightarrow> string list \<Rightarrow> string set" where
  "spec_unit_ids suf keys =
     {u. \<exists>k p. k \<in> set keys \<and> CHR ''/'' \<notin> set (u @ suf) \<and> (k = u @ suf \<or> k = p @ ''/'' @ u @ suf)}"

section \<open>Tables\<close>

text \<open>
  A decoded input is a pandas \<open>DataFrame\<close>: row labels and named columns, each of one dtype.
  \<open>None\<close> is a missing value (\<open>pd.NA\<close>, \<open>NaN\<close>, \<open>None\<close>).

  \<^item> \<open>IntCol\<close>: integers, of dtype \<open>int64\<close> when no cell is missing and of the nullable
    extension dtype \<open>Int64\<close> otherwise (which \<open>pd.read_parquet\<close> restores only where the file
    records it);
  \<^item> \<open>FloatCol\<close>: dtype \<open>float64\<close>, with whole-numbered values only: the cell \<open>Some n\<close> holds
    the double nearest to \<open>n\<close>, and \<open>None\<close> is \<open>NaN\<close>. This is what \<open>pd.read_parquet\<close> makes of an
    \<open>INT64\<close> column of the file in which some value is null (\<open>decode_int64\<close>);
  \<^item> \<open>StrCol\<close>: dtype \<open>object\<close> holding \<open>str\<close>.

  Columns of fractional numbers and of other types are left out.
\<close>

datatype column = IntCol "int option list" | FloatCol "int option list" | StrCol "string option list"

datatype scalar = IntVal int | FloatVal int | StrVal string

text \<open>
  The cast of an integer to \<open>float64\<close>: 53 significant bits, round to nearest, ties to even.
  \<open>nbits\<close> is \<open>int.bit_length\<close>. (The integers of an \<open>INT64\<close> column are below \<open>2 ^ 63\<close> in
  magnitude, far from the overflow of a double.)
\<close>

function nbits :: "int \<Rightarrow> nat" where
  "nbits n = (if n \<le> 0 then 0 else Suc (nbits (n div 2)))"
  by pat_completeness auto

termination
  by (relation "measure nat") auto

declare nbits.simps [simp del]

definition round53 :: "int \<Rightarrow> int" where
  "round53 a =
     (let b = nbits a
      in if b \<le> 53 then a
         else let p = 2 ^ (b - 53); q = a div p; r = a mod p
              in (if p < 2 * r \<or> (2 * r = p \<and> odd q) then q + 1 else q) * p)"

definition to_double :: "int \<Rightarrow> int" where
  "to_double i = (if i < 0 then - round53 (- i) else round53 i)"

definition decode_int64 :: "int option list \<Rightarrow> column" where
  \<comment> \<open>the column that \<open>pd.read_parquet\<close> decodes from an \<open>INT64\<close> column of a file\<close>
  "decode_int64 xs = (if None \<in> set xs then FloatCol (map (map_option to_double) xs) else IntCol xs)"

record DataFrame =
  df_index :: "nat list"
  df_columns :: "(string \<times> column) list"

fun col_cells :: "column \<Rightarrow> scalar option list" where
  "col_cells (IntCol xs) = map (map_option IntVal) xs"
| "col_cells (FloatCol xs) = map (map_option (\<lambda>n. FloatVal (to_double n))) xs"
| "col_cells (StrCol xs) = map (map_option StrVal) xs"

definition non_null :: "'a option list \<Rightarrow> 'a list" where
  "non_null xs = map the (filter (\<lambda>x. x \<noteq> None) xs)"

definition select :: "bool list \<Rightarrow> 'a list \<Rightarrow> 'a list" where
  \<comment> \<open>boolean-mask indexing: the entries at the positions where the flag holds\<close>
  "select keep xs = map fst (filter snd (zip xs keep))"

fun col_select :: "bool list \<Rightarrow> column \<Rightarrow> column" where
  "col_select keep (IntCol xs) = IntCol (select keep xs)"
| "col_select keep (FloatCol xs) = FloatCol (select keep xs)"
| "col_select keep (StrCol xs) = StrCol (select keep xs)"

definition df_select :: "bool list \<Rightarrow> DataFrame \<Rightarrow> DataFrame" where
  "df_select keep df =
     \<lparr>df_index = select keep (df_index df),
      df_columns = map (\<lambda>(name, c). (name, col_select keep c)) (df_columns df)\<rparr>"

definition df_empty :: "DataFrame \<Rightarrow> bool" where
  \<comment> \<open>\<open>df.empty\<close>: some axis has length 0\<close>
  "df_empty df = (df_index df = [] \<or> df_columns df = [])"

fun group_keys :: "column \<Rightarrow> scalar list" where
  \<comment> \<open>the distinct non-missing values of a column, ascending (\<open>sort=True\<close>, \<open>dropna=True\<close>)\<close>
  "group_keys (IntCol xs) = map IntVal (sort (remdups (non_null xs)))"
| "group_keys (FloatCol xs) = map FloatVal (sort (remdups (map to_double (non_null xs))))"
| "group_keys (StrCol xs) = map StrVal (sort (remdups (non_null xs)))"

section \<open>Errors\<close>

datatype s3_op =
  ListObjects string string
  | GetObject string string
  | PutObject string string

datatype error =
  NoSuchKey
  | ClientError s3_op
  | ArrowInvalid
  | ValueError string
  | KeyError string

definition groupby :: "DataFrame \<Rightarrow> string \<Rightarrow> error + (scalar \<times> DataFrame) list" where
  \<comment> \<open>\<open>df.groupby(by)\<close> iterated: one pair of key value and sub-frame for each group\<close>
  "groupby df by =
     (case filter (\<lambda>(name, c). name = by) (df_columns df) of
        [] \<Rightarrow> Inl (KeyError by)
      | [(name, c)] \<Rightarrow>
          Inr (map (\<lambda>v. (v, df_select (map (\<lambda>k. k = Some v) (col_cells c)) df)) (group_keys c))
      | _ \<Rightarrow> Inl (ValueError (''Grouper for '' @ by @ '' not 1-dimensional'')))"

section \<open>Formatting\<close>

definition digit :: "nat \<Rightarrow> char" where
  "digit n = char_of (48 + n)"

fun str_nat :: "nat \<Rightarrow> string" where
  "str_nat n = (if n < 10 then [digit n] else str_nat (n div 10) @ [digit (n mod 10)])"

declare str_nat.simps [simp del]

definition str_int :: "int \<Rightarrow> string" where
  "str_int i = (if i < 0 then CHR ''-'' # str_nat (nat (- i)) else str_nat (nat i))"

record struct_time =
  tm_year :: nat
  tm_mon :: nat
  tm_mday :: nat
  tm_hour :: nat
  tm_min :: nat
  tm_sec :: nat

definition pad2 :: "nat \<Rightarrow> string" where
  \<comment> \<open>a two-digit field of \<open>strftime\<close>\<close>
  "pad2 n = (if n < 10 then CHR ''0'' # str_nat n else str_nat n)"

text \<open>
  The \<open>str\<close> of a whole-numbered \<open>float\<close>: the shortest digits that round to the same double
  (of several, the nearest), in positional notation with \<open>.0\<close> up to 16 digits before the point
  and in exponent notation beyond.
\<close>

function str_pos :: "int \<Rightarrow> string" where
  "str_pos n = (if n < 10 then [digit (nat n)] else str_pos (n div 10) @ [digit (nat (n mod 10))])"
  by pat_completeness auto

termination
  by (relation "measure nat") auto

declare str_pos.simps [simp del]

definition shortest_at :: "int \<Rightarrow> nat \<Rightarrow> int option" where
  "shortest_at a n =
     (let p = 10 ^ (length (str_pos a) - n); q = a div p; r = a mod p; lo = q * p; hi = lo + p
      in if round53 lo = a \<and> round53 hi = a
         then Some (if 2 * r < p \<or> (2 * r = p \<and> even q) then lo else hi)
         else if round53 lo = a then Some lo
         else if round53 hi = a then Some hi
         else None)"

definition shortest :: "int \<Rightarrow> int" where
  "shortest a =
     (case List.map_filter (shortest_at a) [1..<Suc (length (str_pos a))] of
        [] \<Rightarrow> a
      | c # cs \<Rightarrow> c)"

definition sig_digits :: "string \<Rightarrow> string" where
  "sig_digits s = rev (dropWhile (\<lambda>ch. ch = CHR ''0'') (rev s))"

definition mantissa :: "string \<Rightarrow> string" where
  "mantissa sig = hd sig # (if tl sig = [] then [] else CHR ''.'' # tl sig)"

definition repr_pos :: "int \<Rightarrow> string" where
  "repr_pos c =
     (let s = str_pos c; decpt = length s
      in if decpt \<le> 16 then s @ ''.0''
         else mantissa (sig_digits s) @ ''e+'' @ pad2 (decpt - 1))"

definition float_repr :: "int \<Rightarrow> string" where
  "float_repr x =
     (if x < 0 then CHR ''-'' # repr_pos (shortest (- x)) else repr_pos (shortest x))"

fun py_str :: "scalar \<Rightarrow> string" where
  \<comment> \<open>the rendering of a key value inside an f-string\<close>
  "py_str (IntVal i) = str_int i"
| "py_str (FloatVal x) = float_repr x"
| "py_str (StrVal s) = s"

definition strftime_utc :: "struct_time \<Rightarrow> string" where
  \<comment> \<open>\<open>time.strftime("%Y-%m-%dT%H:%M:%SZ", t)\<close>\<close>
  "strftime_utc t =
     str_nat (tm_year t) @ ''-'' @ pad2 (tm_mon t) @ ''-'' @ pad2 (tm_mday t) @ ''T''
       @ pad2 (tm_hour t) @ '':'' @ pad2 (tm_min t) @ '':'' @ pad2 (tm_sec t) @ ''Z''"

definition valid_tm :: "struct_time \<Rightarrow> bool" where
  \<comment> \<open>the field ranges of a \<open>struct_time\<close>, with a year of four digits\<close>
  "valid_tm t = (1000 \<le> tm_year t \<and> tm_year t \<le> 9999 \<and> 1 \<le> tm_mon t \<and> tm_mon t \<le> 12
      \<and> 1 \<le> tm_mday t \<and> tm_mday t \<le> 31 \<and> tm_hour t \<le> 23 \<and> tm_min t \<le> 59 \<and> tm_sec t \<le> 61)"

definition is_digit :: "char \<Rightarrow> bool" where
  "is_digit c = (48 \<le> (of_char c :: nat) \<and> (of_char c :: nat) \<le> 57)"

definition is_utc_timestamp :: "string \<Rightarrow> bool" where
  \<comment> \<open>the shape \<open>YYYY-MM-DDTHH:MM:SSZ\<close>\<close>
  "is_utc_timestamp s =
     (length s = 20
      \<and> list_all (\<lambda>i. is_digit (s ! i)) [0, 1, 2, 3, 5, 6, 8, 9, 11, 12, 14, 15, 17, 18]
      \<and> s ! 4 = CHR ''-'' \<and> s ! 7 = CHR ''-'' \<and> s ! 10 = CHR ''T''
      \<and> s ! 13 = CHR '':'' \<and> s ! 16 = CHR '':'' \<and> s ! 19 = CHR ''Z'')"

section \<open>The object store\<close>

record marker_doc =
  m_kind :: string
  m_date :: string
  m_input_key :: string
  m_outputs :: "string list"
  m_output_count :: nat
  m_generated_at :: string

datatype s3_object = ParquetObj DataFrame | JsonObj marker_doc

text \<open>
  The world is the content of the store, an association list from bucket and key to object,
  and the log of the calls made to it. What the program cannot decide is read from an
  environment: which calls the store refuses, in which order the writes of a unit complete,
  and the clock.
\<close>

record world =
  store :: "((string \<times> string) \<times> s3_object) list"
  trace :: "s3_op list"

record env =
  list_fails :: "string \<Rightarrow> string \<Rightarrow> bool"
  get_fails :: "string \<Rightarrow> string \<Rightarrow> bool"
  put_fails :: "string \<Rightarrow> string \<Rightarrow> bool"
  completion :: "string \<Rightarrow> nat list"
  gmtime :: "string \<Rightarrow> struct_time"

definition s3_url :: "string \<Rightarrow> string \<Rightarrow> string" where
  \<comment> \<open>\<open>f"s3://{bucket}/{key}"\<close>\<close>
  "s3_url bucket key = ''s3://'' @ bucket @ ''/'' @ key"

definition log_op :: "s3_op \<Rightarrow> world \<Rightarrow> world" where
  "log_op op w = w\<lparr>trace := trace w @ [op]\<rparr>"

definition list_keys_with_suffix ::
  "env \<Rightarrow> string \<Rightarrow> string \<Rightarrow> string \<Rightarrow> world \<Rightarrow> (error + string list) \<times> world" where
  "list_keys_with_suffix e bucket pre suf w =
     (let w' = log_op (ListObjects bucket pre) w
      in if list_fails e bucket pre then (Inl (ClientError (ListObjects bucket pre)), w')
         else (Inr (map snd (filter (\<lambda>(b, k). b = bucket \<and> startswith k pre \<and> endswith k suf)
                                    (map fst (store w)))), w'))"

definition read_parquet_s3 :: "env \<Rightarrow> string \<Rightarrow> string \<Rightarrow> world \<Rightarrow> (error + DataFrame) \<times> world" where
  "read_parquet_s3 e bucket key w =
     (let w' = log_op (GetObject bucket key) w
      in if get_fails e bucket key then (Inl (ClientError (GetObject bucket key)), w')
         else (case map_of (store w) (bucket, key) of
                 None \<Rightarrow> (Inl NoSuchKey, w')
               | Some (ParquetObj df) \<Rightarrow> (Inr df, w')
               | Some (JsonObj doc) \<Rightarrow> (Inl ArrowInvalid, w')))"

definition put_object :: "env \<Rightarrow> string \<Rightarrow> string \<Rightarrow> s3_object \<Rightarrow> world \<Rightarrow> (error + unit) \<times> world" where
  "put_object e bucket key obj w =
     (let w' = log_op (PutObject bucket key) w
      in if put_fails e bucket key then (Inl (ClientError (PutObject bucket key)), w')
         else (Inr (), w'\<lparr>store := AList.update (bucket, key) obj (store w')\<rparr>))"

definition df_to_parquet_bytes :: "DataFrame \<Rightarrow> s3_object" where
  \<comment> \<open>\<open>df_to_parquet_bytes_\<close>; \<open>index=False\<close>: the row labels are not stored, a reader sees \<open>0, 1, ...\<close>\<close>
  "df_to_parquet_bytes df = ParquetObj (df\<lparr>df_index := [0..<length (df_index df)]\<rparr>)"

definition write_one_partition ::
  "env \<Rightarrow> DataFrame \<times> string \<times> string \<Rightarrow> world \<Rightarrow> (error + string) \<times> world" where
  "write_one_partition e task w =
     (case task of (Item_ID_df, out_bucket, out_key) \<Rightarrow>
        (case put_object e out_bucket out_key (df_to_parquet_bytes Item_ID_df) w of
           (Inl err, w') \<Rightarrow> (Inl err, w')
         | (Inr u, w') \<Rightarrow> (Inr out_key, w')))"

definition put_json :: "env \<Rightarrow> string \<Rightarrow> string \<Rightarrow> marker_doc \<Rightarrow> world \<Rightarrow> (error + unit) \<times> world" where
  "put_json e bucket key doc w = put_object e bucket key (JsonObj doc) w"

section \<open>The worker pool\<close>

text \<open>
  Every submitted task runs to its end: leaving the \<open>with\<close> block waits for the pool, also
  when an exception leaves it. The order in which the futures complete is chosen by the
  environment: each task is placed at a position among those submitted after it.
\<close>

definition insert_at :: "nat \<Rightarrow> 'a \<Rightarrow> 'a list \<Rightarrow> 'a list" where
  "insert_at i x xs = take i xs @ x # drop i xs"

fun as_completed :: "nat list \<Rightarrow> 'a list \<Rightarrow> 'a list" where
  "as_completed picks [] = []"
| "as_completed picks (f # fs) =
     insert_at (case picks of [] \<Rightarrow> 0 | p # ps \<Rightarrow> p) f (as_completed (tl picks) fs)"

fun run_tasks ::
  "env \<Rightarrow> (DataFrame \<times> string \<times> string) list \<Rightarrow> world \<Rightarrow> (error + string) list \<times> world" where
  "run_tasks e [] w = ([], w)"
| "run_tasks e (t # ts) w =
     (case write_one_partition e t w of
        (r, w') \<Rightarrow> (case run_tasks e ts w' of (rs, w'') \<Rightarrow> (r # rs, w'')))"

fun collect_results :: "string \<Rightarrow> (error + string) list \<Rightarrow> string list \<Rightarrow> error + string list" where
  \<comment> \<open>the loop over \<open>as_completed(futures)\<close>: \<open>f.result()\<close> raises what the task raised\<close>
  "collect_results out_bucket [] outputs_written = Inr outputs_written"
| "collect_results out_bucket (Inl err # rs) outputs_written = Inl err"
| "collect_results out_bucket (Inr out_key # rs) outputs_written =
     collect_results out_bucket rs (outputs_written @ [s3_url out_bucket out_key])"

section \<open>The orchestrator\<close>

record config =
  kind :: string
  in_bucket :: string
  in_prefix :: string
  out_bucket :: string
  out_prefix :: string
  marker_prefix :: string
  max_workers :: int

record summary =
  s_kind :: string
  s_input_files :: nat
  s_output_files :: nat
  s_missing_dates :: "string list"
  s_processed_days :: nat

definition in_key_of :: "config \<Rightarrow> string \<Rightarrow> string" where
  "in_key_of cfg date = in_prefix cfg @ date @ ''.parquet''"

definition out_key_of :: "config \<Rightarrow> scalar \<Rightarrow> string \<Rightarrow> string" where
  "out_key_of cfg Item_ID date = out_prefix cfg @ py_str Item_ID @ ''/'' @ date @ ''.parquet''"

definition marker_key_of :: "config \<Rightarrow> string \<Rightarrow> string" where
  "marker_key_of cfg date = marker_prefix cfg @ date @ ''.json''"

definition submit_all :: "config \<Rightarrow> string \<Rightarrow> (scalar \<times> DataFrame) list \<Rightarrow> (DataFrame \<times> string \<times> string) list" where
  \<comment> \<open>the tasks in the order of submission\<close>
  "submit_all cfg date groups =
     map (\<lambda>(Item_ID, Item_ID_df). (Item_ID_df, out_bucket cfg, out_key_of cfg Item_ID date)) groups"

definition write_marker ::
  "env \<Rightarrow> config \<Rightarrow> string \<Rightarrow> string list \<Rightarrow> world \<Rightarrow> (error + bool) \<times> world" where
  \<comment> \<open>lines 175 to 188\<close>
  "write_marker e cfg date outputs_written w =
     (let marker_key = marker_key_of cfg date;
          marker_doc = \<lparr>m_kind = kind cfg,
                        m_date = date,
                        m_input_key = s3_url (in_bucket cfg) (in_key_of cfg date),
                        m_outputs = outputs_written,
                        m_output_count = length outputs_written,
                        m_generated_at = strftime_utc (gmtime e date)\<rparr>
      in case put_json e (out_bucket cfg) marker_key marker_doc w of
           (Inl err, w') \<Rightarrow> (Inl err, w')
         | (Inr u, w') \<Rightarrow> (Inr True, w'))"

definition split_and_mark ::
  "env \<Rightarrow> config \<Rightarrow> string \<Rightarrow> DataFrame \<Rightarrow> world \<Rightarrow> (error + bool) \<times> world" where
  \<comment> \<open>lines 161 to 188: the pool, the join and the marker\<close>
  "split_and_mark e cfg date df w =
     (if max_workers cfg \<le> 0 then (Inl (ValueError ''max_workers must be greater than 0''), w)
      else case groupby df ''Item_ID'' of
             Inl err \<Rightarrow> (Inl err, w)
           | Inr groups \<Rightarrow>
               (case run_tasks e (as_completed (completion e date) (submit_all cfg date groups)) w of
                  (results, w') \<Rightarrow>
                    (case collect_results (out_bucket cfg) results [] of
                       Inl err \<Rightarrow> (Inl err, w')
                     | Inr outputs_written \<Rightarrow> write_marker e cfg date outputs_written w')))"

definition process_date :: "env \<Rightarrow> config \<Rightarrow> string \<Rightarrow> world \<Rightarrow> (error + bool) \<times> world" where
  \<comment> \<open>the body of the loop over \<open>missing_dates\<close>; the result tells whether the unit was marked\<close>
  "process_date e cfg date w =
     (case read_parquet_s3 e (in_bucket cfg) (in_key_of cfg date) w of
        (Inl err, w') \<Rightarrow> (if err = NoSuchKey then (Inr False, w') else (Inl err, w'))
      | (Inr df, w') \<Rightarrow>
          if df_empty df then (Inr False, w')
          else if ''Item_ID'' \<notin> set (map fst (df_columns df))
          then (Inl (ValueError ('''Item_ID' column missing in '' @ in_key_of cfg date)), w')
          else split_and_mark e cfg date df w')"

fun process_dates :: "env \<Rightarrow> config \<Rightarrow> string list \<Rightarrow> nat \<Rightarrow> world \<Rightarrow> (error + nat) \<times> world" where
  "process_dates e cfg [] processed w = (Inr processed, w)"
| "process_dates e cfg (date # rest) processed w =
     (case process_date e cfg date w of
        (Inl err, w') \<Rightarrow> (Inl err, w')
      | (Inr marked, w') \<Rightarrow> process_dates e cfg rest (if marked then processed + 1 else processed) w')"

definition normalize :: "config \<Rightarrow> config" where
  \<comment> \<open>lines 119 to 121\<close>
  "normalize cfg = cfg\<lparr>in_prefix := rstrip_slash (in_prefix cfg) @ ''/'',
                       out_prefix := rstrip_slash (out_prefix cfg) @ ''/'',
                       marker_prefix := rstrip_slash (marker_prefix cfg) @ ''/''\<rparr>"

definition process_kind :: "env \<Rightarrow> config \<Rightarrow> world \<Rightarrow> (error + summary) \<times> world" where
  "process_kind e cfg0 w =
     (let cfg = normalize cfg0
      in case list_keys_with_suffix e (in_bucket cfg) (in_prefix cfg) ''.parquet'' w of
           (Inl err, w1) \<Rightarrow> (Inl err, w1)
         | (Inr in_keys, w1) \<Rightarrow>
             (case list_keys_with_suffix e (out_bucket cfg) (marker_prefix cfg) ''.json'' w1 of
                (Inl err, w2) \<Rightarrow> (Inl err, w2)
              | (Inr marker_keys, w2) \<Rightarrow>
                  (let input_dates = extract_dates_from_keys in_keys;
                       done_dates = extract_dates_from_marker_keys marker_keys;
                       missing_dates = missing_dates_of in_keys marker_keys
                   in case process_dates e cfg missing_dates 0 w2 of
                        (Inl err, w3) \<Rightarrow> (Inl err, w3)
                      | (Inr processed, w3) \<Rightarrow>
                          (Inr \<lparr>s_kind = kind cfg,
                                s_input_files = card input_dates,
                                s_output_files = card done_dates,
                                s_missing_dates = missing_dates,
                                s_processed_days = processed\<rparr>, w3))))"

section \<open>What a task does, for the statements below\<close>

definition task_key :: "DataFrame \<times> string \<times> string \<Rightarrow> string" where
  "task_key t = (case t of (sub, b, k) \<Rightarrow> k)"

definition task_op :: "DataFrame \<times> string \<times> string \<Rightarrow> s3_op" where
  "task_op t = (case t of (sub, b, k) \<Rightarrow> PutObject b k)"

definition task_fails :: "env \<Rightarrow> DataFrame \<times> string \<times> string \<Rightarrow> bool" where
  "task_fails e t = (case t of (sub, b, k) \<Rightarrow> put_fails e b k)"

definition task_result :: "env \<Rightarrow> DataFrame \<times> string \<times> string \<Rightarrow> error + string" where
  "task_result e t = (if task_fails e t then Inl (ClientError (task_op t)) else Inr (task_key t))"

definition task_store ::
  "env \<Rightarrow> DataFrame \<times> string \<times> string \<Rightarrow> ((string \<times> string) \<times> s3_object) list
     \<Rightarrow> ((string \<times> string) \<times> s3_object) list" where
  "task_store e t st =
     (case t of (sub, b, k) \<Rightarrow>
        if put_fails e b k then st else AList.update (b, k) (df_to_parquet_bytes sub) st)"

definition new_ops :: "world \<Rightarrow> world \<Rightarrow> s3_op list" where
  \<comment> \<open>the calls logged between two worlds\<close>
  "new_ops w w' = drop (length (trace w)) (trace w')"

section \<open>Example inputs\<close>

definition null_key_df :: DataFrame where
  "null_key_df = \<lparr>df_index = [0, 1],
      df_columns = [(''Item_ID'', StrCol [Some ''A'', None]), (''qty'', IntCol [Some 5, Some 7])]\<rparr>"

definition quiet_env :: env where
  "quiet_env = \<lparr>list_fails = (\<lambda>b p. False), get_fails = (\<lambda>b k. False),
                 put_fails = (\<lambda>b k. False), completion = (\<lambda>d. [1]),
                 gmtime = (\<lambda>d. \<lparr>tm_year = 2025, tm_mon = 1, tm_mday = 9,
                                  tm_hour = 3, tm_min = 4, tm_sec = 5\<rparr>)\<rparr>"

definition ex_cfg :: config where
  "ex_cfg = \<lparr>kind = ''sales'', in_bucket = ''inb'', in_prefix = ''in/'', out_bucket = ''outb'',
              out_prefix = ''out/'', marker_prefix = ''marker/'', max_workers = 24\<rparr>"

definition sales_df :: DataFrame where
  "sales_df = \<lparr>df_index = [0, 1, 2],
      df_columns = [(''Item_ID'', StrCol [Some ''A'', Some ''A'', Some ''B'']),
                    (''qty'', IntCol [Some 1, None, Some 3])]\<rparr>"

definition empty_df :: DataFrame where
  "empty_df = \<lparr>df_index = [], df_columns = [(''Item_ID'', StrCol []), (''qty'', IntCol [])]\<rparr>"

definition no_key_empty_df :: DataFrame where
  "no_key_empty_df = \<lparr>df_index = [], df_columns = [(''qty'', IntCol [])]\<rparr>"

definition no_key_df :: DataFrame where
  "no_key_df = \<lparr>df_index = [0], df_columns = [(''qty'', IntCol [Some 4])]\<rparr>"

definition ex_world :: world where
  "ex_world = \<lparr>store = [((''inb'', ''in/20250101.parquet''), ParquetObj sales_df),
                         ((''inb'', ''in/20250108.parquet''), ParquetObj empty_df)],
                trace = []\<rparr>"

definition no_key_empty_world :: world where
  "no_key_empty_world =
     \<lparr>store = [((''inb'', ''in/20250101.parquet''), ParquetObj no_key_empty_df)], trace = []\<rparr>"

definition no_key_world :: world where
  "no_key_world =
     \<lparr>store = [((''inb'', ''in/20250101.parquet''), ParquetObj no_key_df),
               ((''inb'', ''in/20250108.parquet''), ParquetObj sales_df)], trace = []\<rparr>"

definition flaky_env :: env where
  "flaky_env = quiet_env\<lparr>put_fails := (\<lambda>b k. k = ''out/A/20250101.parquet'')\<rparr>"

definition sales_groups :: "(scalar \<times> DataFrame) list" where
  "sales_groups =
     [(StrVal ''A'', \<lparr>df_index = [0, 1],
         df_columns = [(''Item_ID'', StrCol [Some ''A'', Some ''A'']),
                       (''qty'', IntCol [Some 1, None])]\<rparr>),
      (StrVal ''B'', \<lparr>df_index = [2],
         df_columns = [(''Item_ID'', StrCol [Some ''B'']), (''qty'', IntCol [Some 3])]\<rparr>)]"


definition null_key_world :: world where
  "null_key_world =
     \<lparr>store = [((''inb'', ''in/20250101.parquet''), ParquetObj null_key_df)], trace = []\<rparr>"

definition unit_op :: "config \<Rightarrow> string \<Rightarrow> s3_op \<Rightarrow> bool" where
  \<comment> \<open>the calls a unit may make, by the key conventions\<close>
  "unit_op cfg d op =
     (op = GetObject (in_bucket cfg) (in_prefix cfg @ d @ ''.parquet'')
      \<or> (\<exists>v. op = PutObject (out_bucket cfg) (out_prefix cfg @ py_str v @ ''/'' @ d @ ''.parquet''))
      \<or> op = PutObject (out_bucket cfg) (marker_prefix cfg @ d @ ''.json''))"

definition unit_key :: "config \<Rightarrow> string \<Rightarrow> string \<times> string \<Rightarrow> bool" where
  \<comment> \<open>the locations a unit may write\<close>
  "unit_key cfg d bk =
     ((\<exists>v. bk = (out_bucket cfg, out_key_of cfg v d)) \<or> bk = (out_bucket cfg, marker_key_of cfg d))"

definition listed :: "string \<Rightarrow> string \<Rightarrow> string \<Rightarrow> ((string \<times> string) \<times> s3_object) list \<Rightarrow> string list" where
  \<comment> \<open>the keys a listing of the store returns\<close>
  "listed bucket pre suf st =
     map snd (filter (\<lambda>(b, k). b = bucket \<and> startswith k pre \<and> endswith k suf) (map fst st))"

definition is_put :: "s3_op \<Rightarrow> bool" where
  "is_put op = (case op of PutObject b k \<Rightarrow> True | _ \<Rightarrow> False)"

section \<open>Facts about the string operations\<close>

lemma rsplit_last_no_slash: "CHR ''/'' \<notin> set (rsplit_last k)"
proof -
  have "\<forall>c \<in> set (takeWhile (\<lambda>c. c \<noteq> CHR ''/'') (rev k)). c \<noteq> CHR ''/''"
    using set_takeWhileD by fastforce
  then show ?thesis by (auto simp: rsplit_last_def)
qed

lemma takeWhile_neq_all: "a \<notin> set s \<Longrightarrow> takeWhile (\<lambda>c. c \<noteq> a) s = s"
  by (induction s) auto

lemma takeWhile_neq_stop: "a \<notin> set s \<Longrightarrow> takeWhile (\<lambda>c. c \<noteq> a) (s @ a # r) = s"
  by (induction s) auto

lemma rsplit_last_id: "CHR ''/'' \<notin> set s \<Longrightarrow> rsplit_last s = s"
proof -
  assume "CHR ''/'' \<notin> set s"
  then have "CHR ''/'' \<notin> set (rev s)" by simp
  then have "takeWhile (\<lambda>c. c \<noteq> CHR ''/'') (rev s) = rev s"
    by (rule takeWhile_neq_all)
  then show ?thesis by (simp only: rsplit_last_def rev_rev_ident)
qed

lemma rsplit_last_append: "CHR ''/'' \<notin> set s \<Longrightarrow> rsplit_last (p @ ''/'' @ s) = s"
proof -
  assume "CHR ''/'' \<notin> set s"
  then have "CHR ''/'' \<notin> set (rev s)" by simp
  then have "takeWhile (\<lambda>c. c \<noteq> CHR ''/'') (rev s @ CHR ''/'' # rev p) = rev s"
    by (rule takeWhile_neq_stop)
  then show ?thesis by (simp only: rsplit_last_def rev_append rev.simps rev_rev_ident append.simps append_assoc)
qed

lemma rsplit_last_cases: "k = rsplit_last k \<or> (\<exists>p. k = p @ ''/'' @ rsplit_last k)"
proof (cases "CHR ''/'' \<in> set k")
  case False
  then show ?thesis by (simp add: rsplit_last_id)
next
  case True
  let ?P = "\<lambda>c. c \<noteq> CHR ''/''"
  have split: "rev k = takeWhile ?P (rev k) @ dropWhile ?P (rev k)" by simp
  have "dropWhile ?P (rev k) \<noteq> []" using True by (simp add: dropWhile_eq_Nil_conv)
  then obtain r where r: "dropWhile ?P (rev k) = CHR ''/'' # r"
    using hd_dropWhile [of ?P "rev k"] by (cases "dropWhile ?P (rev k)") auto
  have "k = rev (dropWhile ?P (rev k)) @ rev (takeWhile ?P (rev k))"
    using split by (metis rev_append rev_rev_ident)
  then have "k = rev r @ ''/'' @ rsplit_last k"
    by (simp add: r rsplit_last_def)
  then show ?thesis by blast
qed

lemma endswith_append: "endswith (u @ suf) suf"
  by (simp add: endswith_def suffix_def)

lemma endswithE: "endswith s suf \<Longrightarrow> \<exists>u. s = u @ suf"
  by (auto simp: endswith_def suffix_def)

lemma drop_last_append: "drop_last (length suf) (u @ suf) = u"
  by (simp add: drop_last_def)

section \<open>The differ computes the specification's identifier sets\<close>

lemma fold_extract:
  "fold (\<lambda>k dates. let base = rsplit_last k
                     in if endswith base suf then insert (drop_last n base) dates else dates) keys A
   = A \<union> {drop_last n (rsplit_last k) | k. k \<in> set keys \<and> endswith (rsplit_last k) suf}"
  by (induction keys arbitrary: A) (auto simp: Let_def)

lemma extracted_eq_spec:
  assumes n: "n = length suf"
  shows "{drop_last n (rsplit_last k) | k. k \<in> set keys \<and> endswith (rsplit_last k) suf}
   = spec_unit_ids suf keys" (is "?L = ?R")
  unfolding n
proof (rule set_eqI, rule iffI)
  fix u
  assume "u \<in> {drop_last (length suf) (rsplit_last k) | k.
                   k \<in> set keys \<and> endswith (rsplit_last k) suf}"
  then obtain k where k: "k \<in> set keys" "endswith (rsplit_last k) suf"
    and u: "u = drop_last (length suf) (rsplit_last k)" by blast
  from k(2) obtain v where v: "rsplit_last k = v @ suf" using endswithE by blast
  then have uv: "u = v" using u by (simp add: drop_last_append)
  have ns: "CHR ''/'' \<notin> set (u @ suf)" using rsplit_last_no_slash [of k] v uv by simp
  have "k = u @ suf \<or> (\<exists>p. k = p @ ''/'' @ u @ suf)"
    using rsplit_last_cases [of k] v uv by simp
  then show "u \<in> ?R" using k(1) ns unfolding spec_unit_ids_def by blast
next
  fix u assume "u \<in> ?R"
  then obtain k p where k: "k \<in> set keys" and ns: "CHR ''/'' \<notin> set (u @ suf)"
    and c: "k = u @ suf \<or> k = p @ ''/'' @ u @ suf"
    unfolding spec_unit_ids_def by blast
  have "rsplit_last k = u @ suf"
    using c rsplit_last_id [OF ns] rsplit_last_append [OF ns] by auto
  then have "endswith (rsplit_last k) suf" "u = drop_last (length suf) (rsplit_last k)"
    by (simp_all add: endswith_append drop_last_append)
  then show "u \<in> {drop_last (length suf) (rsplit_last k) | k.
                   k \<in> set keys \<and> endswith (rsplit_last k) suf}"
    using k by blast
qed

lemma extract_dates_from_keys_spec:
  "extract_dates_from_keys keys = spec_unit_ids ''.parquet'' keys"
proof -
  have "(8::nat) = length ''.parquet''" by simp
  from extracted_eq_spec [OF this, of keys] show ?thesis
    by (simp only: extract_dates_from_keys_def fold_extract Un_empty_left)
qed

lemma extract_dates_from_marker_keys_spec:
  "extract_dates_from_marker_keys keys = spec_unit_ids ''.json'' keys"
proof -
  have "(5::nat) = length ''.json''" by simp
  from extracted_eq_spec [OF this, of keys] show ?thesis
    by (simp only: extract_dates_from_marker_keys_def fold_extract Un_empty_left)
qed

lemma finite_extract_dates_from_keys: "finite (extract_dates_from_keys keys)"
  by (simp add: extract_dates_from_keys_def fold_extract)

lemma spec_unit_ids_cong: "set keys' = set keys \<Longrightarrow> spec_unit_ids suf keys' = spec_unit_ids suf keys"
  by (simp add: spec_unit_ids_def)

text \<open>
  Claim C1. For any listings of input keys and marker keys, the outstanding work set is the
  ascending sorted list, without repetition, of the set difference of the input unit
  identifiers and the marker unit identifiers, each identifier being the final path segment
  of a key with the suffix of its role stripped and keys without that suffix ignored;
  listings with the same keys (duplicated or reordered) give the same result.
\<close>

theorem outstanding_is_sorted_difference:
  "missing_dates_of in_keys marker_keys
     = sorted_list_of_set (spec_unit_ids ''.parquet'' in_keys - spec_unit_ids ''.json'' marker_keys)
   \<and> set (missing_dates_of in_keys marker_keys)
     = spec_unit_ids ''.parquet'' in_keys - spec_unit_ids ''.json'' marker_keys
   \<and> sorted (missing_dates_of in_keys marker_keys)
   \<and> distinct (missing_dates_of in_keys marker_keys)
   \<and> (set in_keys' = set in_keys \<and> set marker_keys' = set marker_keys
        \<longrightarrow> missing_dates_of in_keys' marker_keys' = missing_dates_of in_keys marker_keys)"
proof -
  have eq: "\<And>a b. missing_dates_of a b
      = sorted_list_of_set (spec_unit_ids ''.parquet'' a - spec_unit_ids ''.json'' b)"
    by (simp add: missing_dates_of_def extract_dates_from_keys_spec
        extract_dates_from_marker_keys_spec)
  have fin: "finite (spec_unit_ids ''.parquet'' in_keys - spec_unit_ids ''.json'' marker_keys)"
    using finite_extract_dates_from_keys [of in_keys]
    by (simp add: extract_dates_from_keys_spec)
  have cong: "set in_keys' = set in_keys \<and> set marker_keys' = set marker_keys
        \<longrightarrow> missing_dates_of in_keys' marker_keys' = missing_dates_of in_keys marker_keys"
    by (simp add: eq spec_unit_ids_cong [of in_keys' in_keys]
        spec_unit_ids_cong [of marker_keys' marker_keys])
  show ?thesis
    using fin cong by (simp add: eq)
qed

theorem outstanding_is_sorted_difference_witness:
  "(set [''in/20250101.parquet'', ''in/20250108.parquet'', ''in/20250101.parquet'', ''in/notes.txt'']
     = set [''in/20250108.parquet'', ''in/notes.txt'', ''in/20250101.parquet'']
    \<and> set [''marker/20250108.json''] = set [''marker/20250108.json''])
   \<and> missing_dates_of
        [''in/20250101.parquet'', ''in/20250108.parquet'', ''in/20250101.parquet'', ''in/notes.txt'']
        [''marker/20250108.json'']
     = missing_dates_of [''in/20250108.parquet'', ''in/notes.txt'', ''in/20250101.parquet'']
        [''marker/20250108.json'']" (is "?H \<and> ?C")
proof -
  have h: ?H by (simp add: insert_commute)
  from outstanding_is_sorted_difference
    [of "[''in/20250108.parquet'', ''in/notes.txt'', ''in/20250101.parquet'']"
        "[''marker/20250108.json'']"
        "[''in/20250101.parquet'', ''in/20250108.parquet'', ''in/20250101.parquet'', ''in/notes.txt'']"
        "[''marker/20250108.json'']"]
  have "?H \<longrightarrow> ?C" by blast
  with h show ?thesis by blast
qed

section \<open>The partitioner\<close>

lemma select_map: "select (map P ks) xs = map fst (filter (\<lambda>(x, k). P k) (zip xs ks))"
proof -
  have "filter snd (zip xs (map P ks)) = map (\<lambda>(x, k). (x, P k)) (filter (\<lambda>(x, k). P k) (zip xs ks))"
  proof (induction xs arbitrary: ks)
    case Nil
    then show ?case by simp
  next
    case (Cons x xs)
    then show ?case by (cases ks) auto
  qed
  then show ?thesis by (simp add: select_def comp_def case_prod_unfold)
qed

lemma set_non_null: "set (non_null xs) = {v. Some v \<in> set xs}"
  by (force simp: non_null_def image_iff)

lemma Some_in_map_option: "Some y \<in> map_option f ` A \<longleftrightarrow> (\<exists>x. Some x \<in> A \<and> y = f x)"
proof
  assume "Some y \<in> map_option f ` A"
  then obtain a where a: "a \<in> A" "Some y = map_option f a" by blast
  then show "\<exists>x. Some x \<in> A \<and> y = f x" by (cases a) auto
next
  assume "\<exists>x. Some x \<in> A \<and> y = f x"
  then obtain x where "Some x \<in> A" "y = f x" by blast
  then have "map_option f (Some x) \<in> map_option f ` A" by (intro imageI)
  then show "Some y \<in> map_option f ` A" using \<open>y = f x\<close> by simp
qed

lemma set_group_keys: "set (group_keys c) = {v. Some v \<in> set (col_cells c)}"
  by (cases c) (auto simp: set_non_null Some_in_map_option)

lemma distinct_group_keys: "distinct (group_keys c)"
  by (cases c) (simp_all add: distinct_map inj_on_def)

lemma mset_group_step:
  "a \<notin> set vs \<Longrightarrow>
   mset (map fst (filter (\<lambda>(x, k). k = Some a) zs))
     + mset (map fst (filter (\<lambda>(x, k). k \<in> Some ` set vs) zs))
   = mset (map fst (filter (\<lambda>(x, k). k \<in> Some ` set (a # vs)) zs))"
  by (induction zs) auto

lemma mset_groups:
  "distinct vs \<Longrightarrow>
   mset (concat (map (\<lambda>v. map fst (filter (\<lambda>(x, k). k = Some v) zs)) vs))
     = mset (map fst (filter (\<lambda>(x, k). k \<in> Some ` set vs) zs))"
proof (induction vs)
  case Nil
  then show ?case by simp
next
  case (Cons a vs)
  then have ih: "mset (concat (map (\<lambda>v. map fst (filter (\<lambda>(x, k). k = Some v) zs)) vs))
     = mset (map fst (filter (\<lambda>(x, k). k \<in> Some ` set vs) zs))" and a: "a \<notin> set vs"
    by simp_all
  have "mset (concat (map (\<lambda>v. map fst (filter (\<lambda>(x, k). k = Some v) zs)) (a # vs)))
      = mset (map fst (filter (\<lambda>(x, k). k = Some a) zs))
        + mset (concat (map (\<lambda>v. map fst (filter (\<lambda>(x, k). k = Some v) zs)) vs))"
    by simp
  also have "\<dots> = mset (map fst (filter (\<lambda>(x, k). k \<in> Some ` set (a # vs)) zs))"
    unfolding ih by (rule mset_group_step [OF a])
  finally show ?case .
qed

lemma groupby_InrD:
  assumes "groupby df by = Inr groups"
  obtains c where "filter (\<lambda>(name, c). name = by) (df_columns df) = [(by, c)]"
    and "groups = map (\<lambda>v. (v, df_select (map (\<lambda>k. k = Some v) (col_cells c)) df)) (group_keys c)"
proof -
  let ?f = "filter (\<lambda>(name, c). name = by) (df_columns df)"
  from assms obtain name c where f: "?f = [(name, c)]"
    and g: "groups = map (\<lambda>v. (v, df_select (map (\<lambda>k. k = Some v) (col_cells c)) df)) (group_keys c)"
    by (auto simp: groupby_def split: list.splits)
  have "(name, c) \<in> set ?f" using f by simp
  then have "name = by" by auto
  with f g that show thesis by blast
qed

lemma df_index_df_select: "df_index (df_select keep df) = select keep (df_index df)"
  by (simp add: df_select_def)

lemma group_labels:
  "map (\<lambda>(v, sub). df_index sub)
       (map (\<lambda>v. (v, df_select (map (\<lambda>k. k = Some v) ks) df)) vs)
   = map (\<lambda>v. map fst (filter (\<lambda>(x, k). k = Some v) (zip (df_index df) ks))) vs"
  by (simp add: comp_def df_index_df_select select_map)

lemma filter_non_null_cong:
  assumes "set vs = {v. Some v \<in> set ks}"
  shows "filter (\<lambda>(x, k). k \<in> Some ` set vs) (zip xs ks) = filter (\<lambda>(x, k). k \<noteq> None) (zip xs ks)"
proof (rule filter_cong [OF refl])
  fix z assume "z \<in> set (zip xs ks)"
  then have "snd z \<in> set ks" using set_zip_rightD [of "fst z" "snd z" xs ks] by simp
  then show "(case z of (x, k) \<Rightarrow> k \<in> Some ` set vs) = (case z of (x, k) \<Rightarrow> k \<noteq> None)"
    using assms by (cases z; cases "snd z") auto
qed

lemma in_set_not_Nil: "x \<in> set ys \<Longrightarrow> ys \<noteq> []"
  by auto

lemma group_not_empty:
  assumes "Some v \<in> set ks" "length ks = length xs"
  shows "select (map (\<lambda>k. k = Some v) ks) xs \<noteq> []"
proof -
  from assms(1) obtain i where i: "i < length ks" "ks ! i = Some v"
    by (auto simp: in_set_conv_nth)
  then have "(xs ! i, ks ! i) \<in> set (zip xs ks)"
    using assms(2) by (auto simp: in_set_zip)
  then have "(xs ! i, Some v) \<in> set (filter (\<lambda>(x, k). k = Some v) (zip xs ks))"
    using i(2) by simp
  then have "filter (\<lambda>(x, k). k = Some v) (zip xs ks) \<noteq> []" by (rule in_set_not_Nil)
  then show ?thesis by (simp add: select_map)
qed

text \<open>
  Claim C2, amended. For every input table with the column \<open>Item_ID\<close>, grouping emits one
  sub-table for each distinct non-missing value of the column and no other: the keys of the
  groups are these values, each once, the sub-table of a key holds the rows with that key, and
  it has a row when the column is as long as the table. The row labels of the sub-tables, taken
  together, are exactly the labels of the rows whose \<open>Item_ID\<close> is not missing, each as often
  as it occurs in the input, so that with distinct labels no row is in two sub-tables. A row
  whose \<open>Item_ID\<close> is missing is in no sub-table.
\<close>

theorem groupby_partitions_keyed_rows:
  assumes "groupby df ''Item_ID'' = Inr groups"
  shows "\<exists>c. filter (\<lambda>(name, c). name = ''Item_ID'') (df_columns df) = [(''Item_ID'', c)]
      \<and> set (map fst groups) = {v. Some v \<in> set (col_cells c)}
      \<and> distinct (map fst groups)
      \<and> (\<forall>(v, sub) \<in> set groups. sub = df_select (map (\<lambda>k. k = Some v) (col_cells c)) df)
      \<and> (length (col_cells c) = length (df_index df) \<longrightarrow>
           (\<forall>(v, sub) \<in> set groups. df_index sub \<noteq> []))
      \<and> mset (concat (map (\<lambda>(v, sub). df_index sub) groups))
          = mset (select (map (\<lambda>k. k \<noteq> None) (col_cells c)) (df_index df))
      \<and> (distinct (df_index df) \<longrightarrow>
           distinct (concat (map (\<lambda>(v, sub). df_index sub) groups)))"
proof -
  from assms obtain c where c: "filter (\<lambda>(name, c). name = ''Item_ID'') (df_columns df) = [(''Item_ID'', c)]"
    and g: "groups = map (\<lambda>v. (v, df_select (map (\<lambda>k. k = Some v) (col_cells c)) df)) (group_keys c)"
    by (rule groupby_InrD)
  let ?zs = "zip (df_index df) (col_cells c)"
  let ?labels = "concat (map (\<lambda>(v, sub). df_index sub) groups)"
  have m: "mset ?labels = mset (select (map (\<lambda>k. k \<noteq> None) (col_cells c)) (df_index df))"
    unfolding g group_labels select_map
    using mset_groups [OF distinct_group_keys [of c], of ?zs]
      filter_non_null_cong [OF set_group_keys [of c], of "df_index df"]
    by simp
  have k: "set (map fst groups) = {v. Some v \<in> set (col_cells c)}"
    by (simp add: g comp_def set_group_keys)
  have d: "distinct (map fst groups)"
    by (simp add: g comp_def distinct_group_keys)
  have s: "\<forall>(v, sub) \<in> set groups. sub = df_select (map (\<lambda>k. k = Some v) (col_cells c)) df"
    by (auto simp: g)
  have n: "length (col_cells c) = length (df_index df) \<longrightarrow>
           (\<forall>(v, sub) \<in> set groups. df_index sub \<noteq> [])"
  proof (intro impI ballI)
    fix x assume l: "length (col_cells c) = length (df_index df)" and x: "x \<in> set groups"
    from x obtain v where v: "v \<in> set (group_keys c)"
      and xv: "x = (v, df_select (map (\<lambda>k. k = Some v) (col_cells c)) df)"
      unfolding g by auto
    from v have "Some v \<in> set (col_cells c)" by (simp add: set_group_keys)
    then have "select (map (\<lambda>k. k = Some v) (col_cells c)) (df_index df) \<noteq> []"
      using l by (rule group_not_empty)
    then show "case x of (v, sub) \<Rightarrow> df_index sub \<noteq> []"
      by (simp add: xv df_index_df_select)
  qed
  have "distinct (df_index df) \<longrightarrow> distinct ?labels"
  proof
    assume "distinct (df_index df)"
    then have "distinct (map fst ?zs)" by (simp add: map_fst_zip_take)
    then have "distinct (map fst (filter (\<lambda>(x, k). k \<noteq> None) ?zs))"
      by (rule distinct_map_filter)
    then have "distinct (select (map (\<lambda>k. k \<noteq> None) (col_cells c)) (df_index df))"
      by (simp add: select_map)
    with m show "distinct ?labels" using mset_eq_imp_distinct_iff by blast
  qed
  with c k d s n m show ?thesis by blast
qed

text \<open>
  The claim C2 as stated fails on a table with a missing key: its second row is in no sub-table.
\<close>

theorem groupby_drops_null_key_row:
  "groupby null_key_df ''Item_ID''
     = Inr [(StrVal ''A'', \<lparr>df_index = [0],
               df_columns = [(''Item_ID'', StrCol [Some ''A'']), (''qty'', IntCol [Some 5])]\<rparr>)]
   \<and> df_index null_key_df = [0, 1]"
  by (simp add: groupby_def null_key_df_def df_select_def select_def non_null_def)

theorem groupby_partitions_keyed_rows_witness:
  "groupby null_key_df ''Item_ID''
     = Inr [(StrVal ''A'', \<lparr>df_index = [0],
               df_columns = [(''Item_ID'', StrCol [Some ''A'']), (''qty'', IntCol [Some 5])]\<rparr>)]
   \<and> filter (\<lambda>(name, c). name = ''Item_ID'') (df_columns null_key_df)
       = [(''Item_ID'', StrCol [Some ''A'', None])]
   \<and> length (col_cells (StrCol [Some ''A'', None])) = length (df_index null_key_df)
   \<and> distinct (df_index null_key_df)
   \<and> set (map fst [(StrVal ''A'', \<lparr>df_index = [0::nat],
               df_columns = [(''Item_ID'', StrCol [Some ''A'']), (''qty'', IntCol [Some 5])]\<rparr>)])
       = {v. Some v \<in> set (col_cells (StrCol [Some ''A'', None]))}
   \<and> df_index \<lparr>df_index = [0],
               df_columns = [(''Item_ID'', StrCol [Some ''A'']), (''qty'', IntCol [Some 5])]\<rparr> \<noteq> []
   \<and> distinct (concat (map (\<lambda>(v, sub). df_index sub)
         [(StrVal ''A'', \<lparr>df_index = [0],
               df_columns = [(''Item_ID'', StrCol [Some ''A'']), (''qty'', IntCol [Some 5])]\<rparr>)]))"
proof -
  have g: "groupby null_key_df ''Item_ID''
     = Inr [(StrVal ''A'', \<lparr>df_index = [0],
               df_columns = [(''Item_ID'', StrCol [Some ''A'']), (''qty'', IntCol [Some 5])]\<rparr>)]"
    by (simp add: groupby_def null_key_df_def df_select_def select_def non_null_def)
  have f: "filter (\<lambda>(name, c). name = ''Item_ID'') (df_columns null_key_df)
       = [(''Item_ID'', StrCol [Some ''A'', None])]"
    by (simp add: null_key_df_def)
  have d: "distinct (df_index null_key_df)"
    "length (col_cells (StrCol [Some ''A'', None])) = length (df_index null_key_df)"
    by (simp_all add: null_key_df_def)
  from groupby_partitions_keyed_rows [OF g] obtain c where c:
    "filter (\<lambda>(name, c). name = ''Item_ID'') (df_columns null_key_df) = [(''Item_ID'', c)]"
    "set (map fst [(StrVal ''A'', \<lparr>df_index = [0::nat],
               df_columns = [(''Item_ID'', StrCol [Some ''A'']), (''qty'', IntCol [Some 5])]\<rparr>)])
       = {v. Some v \<in> set (col_cells c)}"
    "length (col_cells c) = length (df_index null_key_df) \<longrightarrow>
       (\<forall>(v, sub) \<in> set [(StrVal ''A'', \<lparr>df_index = [0::nat],
               df_columns = [(''Item_ID'', StrCol [Some ''A'']), (''qty'', IntCol [Some 5])]\<rparr>)].
          df_index sub \<noteq> [])"
    "distinct (df_index null_key_df) \<longrightarrow>
       distinct (concat (map (\<lambda>(v, sub). df_index sub)
         [(StrVal ''A'', \<lparr>df_index = [0],
               df_columns = [(''Item_ID'', StrCol [Some ''A'']), (''qty'', IntCol [Some 5])]\<rparr>)]))"
    by blast
  from c(1) f have ceq: "c = StrCol [Some ''A'', None]" by simp
  from c(3) d(2) have ne: "df_index \<lparr>df_index = [0::nat],
               df_columns = [(''Item_ID'', StrCol [Some ''A'']), (''qty'', IntCol [Some 5])]\<rparr> \<noteq> []"
    unfolding ceq by simp
  from g f d c(2) [unfolded ceq] ne c(4) show ?thesis by blast
qed

section \<open>Renderings\<close>

lemma of_char_digit: "n < 10 \<Longrightarrow> (of_char (digit n) :: nat) = 48 + n"
  by (simp add: digit_def)

lemma digit_inj:
  assumes "a < 10" "b < 10" "digit a = digit b"
  shows "a = b"
proof -
  have "(of_char (digit a) :: nat) = of_char (digit b)" using assms(3) by (rule arg_cong)
  then have "48 + a = 48 + b"
    by (simp only: of_char_digit [OF assms(1)] of_char_digit [OF assms(2)])
  then show ?thesis by (rule add_left_imp_eq)
qed

lemma is_digit_digit: "n < 10 \<Longrightarrow> is_digit (digit n)"
  by (simp add: is_digit_def of_char_digit)

lemma digit_0: "digit 0 = CHR ''0''"
proof (rule of_char_eqI)
  show "(of_char (digit 0) :: nat) = of_char CHR ''0''"
    by (simp add: of_char_digit)
qed

lemma str_nat_small: "n < 10 \<Longrightarrow> str_nat n = [digit n]"
  by (simp add: str_nat.simps)

lemma str_nat_large: "\<not> n < 10 \<Longrightarrow> str_nat n = str_nat (n div 10) @ [digit (n mod 10)]"
  by (subst str_nat.simps) simp

lemma str_nat_not_Nil: "str_nat n \<noteq> []"
  by (cases "n < 10") (simp_all add: str_nat_small str_nat_large)

lemma str_nat_digits: "c \<in> set (str_nat n) \<Longrightarrow> is_digit c"
proof (induction n arbitrary: c rule: str_nat.induct)
  case (1 n)
  show ?case
  proof (cases "n < 10")
    case True
    with 1 show ?thesis by (simp add: str_nat_small is_digit_digit)
  next
    case False
    with 1 show ?thesis by (auto simp: str_nat_large is_digit_digit)
  qed
qed

lemma str_nat_inj: "str_nat m = str_nat n \<Longrightarrow> m = n"
proof (induction m arbitrary: n rule: str_nat.induct)
  case (1 m)
  show ?case
  proof (cases "m < 10")
    case m: True
    show ?thesis
    proof (cases "n < 10")
      case True
      with m 1(2) show ?thesis by (simp add: str_nat_small digit_inj)
    next
      case False
      with m 1(2) show ?thesis using str_nat_not_Nil [of "n div 10"]
        by (simp add: str_nat_small str_nat_large)
    qed
  next
    case m: False
    show ?thesis
    proof (cases "n < 10")
      case True
      with m 1(2) show ?thesis using str_nat_not_Nil [of "m div 10"]
        by (simp add: str_nat_small str_nat_large)
    next
      case False
      with m 1(2) have e: "str_nat (m div 10) = str_nat (n div 10)" "digit (m mod 10) = digit (n mod 10)"
        by (simp_all add: str_nat_large)
      from 1(1) [OF m e(1)] have "m div 10 = n div 10" .
      moreover from e(2) have "m mod 10 = n mod 10" by (simp add: digit_inj)
      ultimately show ?thesis by (metis div_mult_mod_eq)
    qed
  qed
qed

lemma is_digit_not_minus: "is_digit c \<Longrightarrow> c \<noteq> CHR ''-''"
  by (auto simp: is_digit_def)

lemma str_int_inj: "str_int i = str_int j \<Longrightarrow> i = j"
proof -
  assume a: "str_int i = str_int j"
  have hd: "\<And>n. hd (str_nat n) \<noteq> CHR ''-''"
    using str_nat_digits str_nat_not_Nil is_digit_not_minus by (metis hd_in_set)
  have nm: "\<And>n m. CHR ''-'' # str_nat n \<noteq> str_nat m"
    using hd by (metis list.sel(1))
  show ?thesis
  proof (cases "i < 0"; cases "j < 0")
    assume "i < 0" "j < 0"
    with a have "nat (- i) = nat (- j)" by (simp add: str_int_def str_nat_inj)
    with \<open>i < 0\<close> \<open>j < 0\<close> show ?thesis by simp
  next
    assume "i < 0" "\<not> j < 0"
    with a nm show ?thesis by (simp add: str_int_def)
  next
    assume "\<not> i < 0" "j < 0"
    with a nm [of "nat (- j)" "nat i"] show ?thesis by (simp add: str_int_def)
  next
    assume "\<not> i < 0" "\<not> j < 0"
    with a have "nat i = nat j" by (simp add: str_int_def str_nat_inj)
    with \<open>\<not> i < 0\<close> \<open>\<not> j < 0\<close> show ?thesis by simp
  qed
qed

section \<open>Digits of an integer\<close>

lemma str_pos_nat: "0 \<le> n \<Longrightarrow> str_pos n = str_nat (nat n)"
proof (induction n rule: str_pos.induct)
  case (1 n)
  show ?case
  proof (cases "n < 10")
    case True
    with 1(2) have "nat n < 10" by simp
    with True show ?thesis by (simp add: str_pos.simps [of n] str_nat_small)
  next
    case False
    then have a: "\<not> nat n < 10" by simp
    from False 1(2) have "0 \<le> n div 10" by simp
    with 1(1) [OF False] have ih: "str_pos (n div 10) = str_nat (nat (n div 10))" by simp
    have d: "nat (n div 10) = nat n div 10" "nat (n mod 10) = nat n mod 10"
      using 1(2) by (simp_all add: nat_div_distrib nat_mod_distrib)
    show ?thesis
      using False by (simp add: str_pos.simps [of n] ih d str_nat_large [OF a])
  qed
qed

lemma str_pos_inj: "0 \<le> m \<Longrightarrow> 0 \<le> n \<Longrightarrow> str_pos m = str_pos n \<Longrightarrow> m = n"
  using str_nat_inj [of "nat m" "nat n"] by (simp add: str_pos_nat)

section \<open>Rounding to a double\<close>

lemma nbits_nonpos: "n \<le> 0 \<Longrightarrow> nbits n = 0"
  by (simp add: nbits.simps)

lemma nbits_pos: "0 < n \<Longrightarrow> nbits n = Suc (nbits (n div 2))"
  by (subst nbits.simps) simp

lemma nbits_upper: "n < 2 ^ nbits n"
proof (induction n rule: nbits.induct)
  case (1 n)
  show ?case
  proof (cases "n \<le> 0")
    case True
    then show ?thesis by (simp add: nbits_nonpos)
  next
    case False
    with 1 have "n div 2 < 2 ^ nbits (n div 2)" by simp
    then have "n < 2 * 2 ^ nbits (n div 2)" by linarith
    with False show ?thesis by (simp add: nbits_pos)
  qed
qed

lemma nbits_lower: "0 < n \<Longrightarrow> 2 ^ (nbits n - 1) \<le> n"
proof (induction n rule: nbits.induct)
  case (1 n)
  then have n: "0 < n" by simp
  show ?case
  proof (cases "0 < n div 2")
    case True
    with 1(1) n have ih: "2 ^ (nbits (n div 2) - 1) \<le> n div 2" by simp
    from True have "nbits (n div 2) = Suc (nbits (n div 2 div 2))" by (rule nbits_pos)
    then have "(2::int) ^ nbits (n div 2) = 2 * 2 ^ (nbits (n div 2) - 1)" by simp
    with ih have "2 ^ nbits (n div 2) \<le> n" by linarith
    with n show ?thesis by (simp add: nbits_pos)
  next
    case False
    then have "nbits (n div 2) = 0" by (simp add: nbits_nonpos)
    with n show ?thesis by (simp add: nbits_pos)
  qed
qed

lemma nbits_unique:
  assumes "2 ^ b \<le> n" "n < 2 ^ Suc b"
  shows "nbits n = Suc b"
proof -
  have n: "0 < n" using assms(1) by (smt (verit) zero_less_power)
  have "(2::int) ^ b < 2 ^ nbits n" using assms(1) nbits_upper [of n] by linarith
  then have 1: "b < nbits n" by (simp add: power_strict_increasing_iff)
  have "(2::int) ^ (nbits n - 1) < 2 ^ Suc b" using nbits_lower [OF n] assms(2) by linarith
  then have 2: "nbits n - 1 < Suc b" by (simp only: power_strict_increasing_iff rel_simps)
  from 1 2 show ?thesis by linarith
qed

lemma round53_exact:
  assumes "2 ^ 52 \<le> m" "m < 2 ^ 53"
  shows "round53 (m * 2 ^ k) = m * 2 ^ k"
proof -
  have "(2::int) ^ (52 + k) \<le> m * 2 ^ k" "m * 2 ^ k < (2::int) ^ Suc (52 + k)"
    using assms by (simp_all add: power_add)
  then have b: "nbits (m * 2 ^ k) = Suc (52 + k)" by (rule nbits_unique)
  show ?thesis
  proof (cases "k = 0")
    case True
    with b show ?thesis by (simp add: round53_def)
  next
    case False
    have p: "(0::int) < 2 ^ k" by simp
    from False b show ?thesis
      using p by (simp add: round53_def Let_def)
  qed
qed

lemma round53_small: "nbits a \<le> 53 \<Longrightarrow> round53 a = a"
  by (simp add: round53_def)

lemma round53_idem: "round53 (round53 a) = round53 a"
proof (cases "nbits a \<le> 53")
  case True
  then show ?thesis by (simp add: round53_small)
next
  case False
  define k where "k = nbits a - 53"
  define q where "q = a div 2 ^ k"
  define r where "r = a mod 2 ^ k"
  define q' where "q' = (if 2 ^ k < 2 * r \<or> (2 * r = 2 ^ k \<and> odd q) then q + 1 else q)"
  have R: "round53 a = q' * 2 ^ k"
    using False by (simp add: round53_def Let_def k_def q_def r_def q'_def)
  have a: "0 < a" using False by (cases "a \<le> 0") (simp_all add: nbits_nonpos)
  have nb: "nbits a = 53 + k" using False by (simp add: k_def)
  have lo: "(2::int) ^ 52 * 2 ^ k \<le> a"
    using nbits_lower [OF a] by (simp add: nb power_add)
  have hi: "a < (2::int) ^ 53 * 2 ^ k"
    using nbits_upper [of a] by (simp add: nb power_add)
  have p: "(0::int) < 2 ^ k" by simp
  have aq: "a = q * 2 ^ k + r" by (simp only: q_def r_def div_mult_mod_eq)
  have rr: "0 \<le> r" "r < 2 ^ k" by (simp_all add: r_def)
  have q1: "2 ^ 52 \<le> q"
  proof (rule ccontr)
    assume "\<not> 2 ^ 52 \<le> q"
    then have "q + 1 \<le> 2 ^ 52" by simp
    then have "(q + 1) * 2 ^ k \<le> 2 ^ 52 * 2 ^ k" using p by (simp only: mult_le_cancel_right_pos)
    then have "q * 2 ^ k + 2 ^ k \<le> 2 ^ 52 * 2 ^ k" by (simp add: algebra_simps)
    with aq rr lo show False by linarith
  qed
  have q2: "q < 2 ^ 53"
  proof (rule ccontr)
    assume "\<not> q < 2 ^ 53"
    then have "2 ^ 53 \<le> q" by simp
    then have "2 ^ 53 * 2 ^ k \<le> q * 2 ^ k" using p by (simp only: mult_le_cancel_right_pos)
    with aq rr hi show False by linarith
  qed
  have "q' = q \<or> q' = q + 1" by (simp add: q'_def)
  with q1 q2 consider (a) "2 ^ 52 \<le> q'" "q' < 2 ^ 53" | (b) "q' = 2 ^ 53" by fastforce
  then show ?thesis
  proof cases
    case a
    then show ?thesis unfolding R by (rule round53_exact)
  next
    case b
    have "q' * 2 ^ k = 2 ^ 52 * 2 ^ Suc k" by (simp add: b)
    moreover have "round53 (2 ^ 52 * 2 ^ Suc k) = 2 ^ 52 * 2 ^ Suc k"
      by (rule round53_exact) simp_all
    ultimately show ?thesis unfolding R by simp
  qed
qed

lemma round53_nonneg: "0 \<le> a \<Longrightarrow> 0 \<le> round53 a"
  by (auto simp: round53_def Let_def pos_imp_zdiv_nonneg_iff)

lemma round53_pos: "0 < a \<Longrightarrow> 0 < round53 a"
proof (cases "nbits a \<le> 53")
  case True
  assume "0 < a"
  with True show ?thesis by (simp add: round53_small)
next
  case False
  assume a: "0 < a"
  define k where "k = nbits a - 53"
  have nb: "nbits a = 53 + k" using False by (simp add: k_def)
  have lo: "(2::int) ^ 52 * 2 ^ k \<le> a"
    using nbits_lower [OF a] by (simp add: nb power_add)
  have p: "(0::int) < 2 ^ k" by simp
  have "0 < a div 2 ^ k"
  proof (rule ccontr)
    assume "\<not> 0 < a div 2 ^ k"
    then have "a div 2 ^ k \<le> 0" by simp
    moreover have "a = (a div 2 ^ k) * 2 ^ k + a mod 2 ^ k" by (simp only: div_mult_mod_eq)
    moreover have "a mod 2 ^ k < 2 ^ k" by simp
    moreover have "(a div 2 ^ k) * 2 ^ k \<le> 0" using calculation(1) p by (simp add: mult_le_0_iff)
    moreover have "(2::int) ^ k \<le> 2 ^ 52 * 2 ^ k" by simp
    ultimately show False using lo by linarith
  qed
  then show ?thesis
    using False p by (simp add: round53_def Let_def k_def)
qed

lemma to_double_idem: "to_double (to_double i) = to_double i"
proof (cases "i < 0")
  case True
  then have "0 < round53 (- i)" by (simp add: round53_pos)
  with True show ?thesis by (simp add: to_double_def round53_idem)
next
  case False
  then have "0 \<le> round53 i" by (simp add: round53_nonneg)
  with False show ?thesis by (simp add: to_double_def round53_idem)
qed

section \<open>The shortest digits\<close>

lemma shortest_at_sound: "shortest_at a n = Some c \<Longrightarrow> round53 c = a"
  by (auto simp: shortest_at_def Let_def split: if_splits)

lemma shortest_at_nonneg:
  assumes "0 \<le> a" "shortest_at a n = Some c"
  shows "0 \<le> c"
proof -
  define p :: int where "p = 10 ^ (length (str_pos a) - n)"
  have p: "0 < p" by (simp add: p_def)
  have q: "0 \<le> a div p" using assms(1) p by (simp add: pos_imp_zdiv_nonneg_iff)
  have "c = a div p * p \<or> c = a div p * p + p"
    using assms(2) unfolding shortest_at_def Let_def p_def [symmetric]
    by (simp split: if_splits)
  moreover have "0 \<le> a div p * p" using q p by simp
  ultimately show ?thesis using p by auto
qed

lemma shortest_cases:
  "shortest a = a \<or> (\<exists>n. shortest_at a n = Some (shortest a))"
proof (cases "List.map_filter (shortest_at a) [1..<Suc (length (str_pos a))]")
  case Nil
  then show ?thesis by (simp add: shortest_def)
next
  case (Cons c cs)
  then have "c \<in> set (List.map_filter (shortest_at a) [1..<Suc (length (str_pos a))])" by simp
  then obtain n where "shortest_at a n = Some c"
    by (auto simp: List.map_filter_def)
  with Cons show ?thesis by (auto simp: shortest_def)
qed

lemma shortest_sound: "round53 a = a \<Longrightarrow> round53 (shortest a) = a"
  using shortest_cases [of a] shortest_at_sound by auto

lemma shortest_nonneg: "0 \<le> a \<Longrightarrow> 0 \<le> shortest a"
  using shortest_cases [of a] shortest_at_nonneg by auto

section \<open>The rendering of the digits\<close>

lemma is_digit_not_e: "is_digit c \<Longrightarrow> c \<noteq> CHR ''e''"
  by (auto simp: is_digit_def)

lemma is_digit_not_dot: "is_digit c \<Longrightarrow> c \<noteq> CHR ''.''"
  by (auto simp: is_digit_def)

lemma split_at_first:
  "x \<notin> set xs \<Longrightarrow> x \<notin> set xs' \<Longrightarrow> xs @ x # ys = xs' @ x # ys' \<Longrightarrow> xs = xs' \<and> ys = ys'"
proof (induction xs arbitrary: xs')
  case Nil
  then show ?case by (cases xs') auto
next
  case (Cons a xs)
  then show ?case by (cases xs') auto
qed

lemma takeWhile_eq_replicate:
  "takeWhile (\<lambda>c. c = a) xs = replicate (length (takeWhile (\<lambda>c. c = a) xs)) a"
  by (induction xs) simp_all

lemma sig_digits_replicate:
  "s = sig_digits s @ replicate (length s - length (sig_digits s)) CHR ''0''"
proof -
  let ?P = "\<lambda>ch. ch = CHR ''0''"
  let ?k = "length (takeWhile ?P (rev s))"
  have "rev s = takeWhile ?P (rev s) @ dropWhile ?P (rev s)" by simp
  then have "rev s = replicate ?k CHR ''0'' @ dropWhile ?P (rev s)"
    using takeWhile_eq_replicate [of "CHR ''0''" "rev s"] by simp
  then have "rev (rev s) = rev (replicate ?k CHR ''0'' @ dropWhile ?P (rev s))"
    by (rule arg_cong)
  then have e: "s = sig_digits s @ replicate ?k CHR ''0''"
    by (simp add: sig_digits_def)
  then have "length s = length (sig_digits s @ replicate ?k CHR ''0'')"
    by (rule arg_cong)
  then have k: "?k = length s - length (sig_digits s)" by simp
  show ?thesis
    by (rule subst [OF k, where P = "\<lambda>x. s = sig_digits s @ replicate x CHR ''0''"]) (rule e)
qed

lemma set_sig_digits: "set (sig_digits s) \<subseteq> set s"
  using set_dropWhileD [of _ "\<lambda>ch. ch = CHR ''0''" "rev s"] by (auto simp: sig_digits_def)

lemma sig_digits_not_Nil: "ch \<in> set s \<Longrightarrow> ch \<noteq> CHR ''0'' \<Longrightarrow> sig_digits s \<noteq> []"
  by (auto simp: sig_digits_def dropWhile_eq_Nil_conv)

lemma mantissa_inj:
  assumes "sig \<noteq> []" "sig' \<noteq> []" "mantissa sig = mantissa sig'"
  shows "sig = sig'"
proof -
  from assms(3) have h: "hd sig = hd sig'"
    and t: "(if tl sig = [] then [] else CHR ''.'' # tl sig)
          = (if tl sig' = [] then [] else CHR ''.'' # tl sig')"
    by (simp_all add: mantissa_def)
  from t have "tl sig = tl sig'" by (auto split: if_splits)
  with h assms(1,2) show ?thesis by (simp add: list.expand)
qed

lemma set_mantissa: "sig \<noteq> [] \<Longrightarrow> set (mantissa sig) \<subseteq> insert CHR ''.'' (set sig)"
proof -
  assume "sig \<noteq> []"
  then have "hd sig \<in> set sig" "set (tl sig) \<subseteq> set sig"
    by (simp_all add: list.set_sel(2) subsetI)
  then show ?thesis by (auto simp: mantissa_def)
qed

lemma hd_str_nat: "\<not> n < 10 \<Longrightarrow> hd (str_nat n) \<noteq> CHR ''0''"
proof (induction n rule: str_nat.induct)
  case (1 n)
  from 1(2) have s: "str_nat n = str_nat (n div 10) @ [digit (n mod 10)]" by (rule str_nat_large)
  then have h: "hd (str_nat n) = hd (str_nat (n div 10))"
    using str_nat_not_Nil [of "n div 10"] by simp
  show ?case
  proof (cases "n div 10 < 10")
    case True
    have "digit (n div 10) \<noteq> digit 0"
    proof
      assume "digit (n div 10) = digit 0"
      with True have "n div 10 = 0" by (intro digit_inj) simp_all
      with 1(2) show False by simp
    qed
    with True show ?thesis unfolding h by (simp add: str_nat_small digit_0)
  next
    case False
    with 1(1) [OF 1(2)] show ?thesis unfolding h by simp
  qed
qed

lemma length_str_nat_small: "n < 10 \<Longrightarrow> length (str_nat n) = 1"
  by (simp add: str_nat_small)

lemma repr_pos_inj:
  assumes c: "0 \<le> c" "0 \<le> c'" and e: "repr_pos c = repr_pos c'"
  shows "c = c'"
proof -
  define s where "s = str_pos c"
  define s' where "s' = str_pos c'"
  have sn: "s = str_nat (nat c)" "s' = str_nat (nat c')"
    using c by (simp_all add: s_def s'_def str_pos_nat)
  have dig: "\<And>ch. ch \<in> set s \<Longrightarrow> is_digit ch" "\<And>ch. ch \<in> set s' \<Longrightarrow> is_digit ch"
    unfolding sn by (rule str_nat_digits, assumption)+
  have no_e: "CHR ''e'' \<notin> set s" "CHR ''e'' \<notin> set s'"
    using dig is_digit_not_e by blast+
  have sci_facts: "sig_digits t \<noteq> [] \<and> CHR ''e'' \<notin> set (mantissa (sig_digits t))
      \<and> pad2 (length t - 1) = str_nat (length t - 1)"
    if t: "t = str_nat n" "16 < length t" for t n
  proof -
    have n: "\<not> n < 10" using t by (auto simp: length_str_nat_small)
    then have "hd t \<noteq> CHR ''0''" unfolding t(1) by (rule hd_str_nat)
    moreover have "hd t \<in> set t" using t(2) by (cases t) simp_all
    ultimately have ne: "sig_digits t \<noteq> []" by (rule sig_digits_not_Nil [rotated])
    have "\<And>ch. ch \<in> set (sig_digits t) \<Longrightarrow> is_digit ch"
      using set_sig_digits [of t] str_nat_digits [of _ n] unfolding t(1) by blast
    then have "CHR ''e'' \<notin> set (sig_digits t)" using is_digit_not_e by blast
    then have m: "CHR ''e'' \<notin> set (mantissa (sig_digits t))"
      using set_mantissa [OF ne] by auto
    have "pad2 (length t - 1) = str_nat (length t - 1)" using t(2) by (simp add: pad2_def)
    with ne m show ?thesis by blast
  qed
  show ?thesis
  proof (cases "length s \<le> 16"; cases "length s' \<le> 16")
    assume "length s \<le> 16" "length s' \<le> 16"
    with e have "s = s'" by (simp add: repr_pos_def s_def s'_def Let_def)
    then show ?thesis using c unfolding s_def s'_def by (intro str_pos_inj)
  next
    assume a: "length s \<le> 16" "\<not> length s' \<le> 16"
    then have r: "repr_pos c = s @ ''.0''"
      "repr_pos c' = mantissa (sig_digits s') @ ''e+'' @ pad2 (length s' - 1)"
      by (simp_all add: repr_pos_def s_def s'_def Let_def)
    have "CHR ''e'' \<notin> set (repr_pos c)" unfolding r using no_e(1) by simp
    moreover have "CHR ''e'' \<in> set (repr_pos c')" unfolding r by simp
    ultimately show ?thesis using e by simp
  next
    assume a: "\<not> length s \<le> 16" "length s' \<le> 16"
    then have r: "repr_pos c' = s' @ ''.0''"
      "repr_pos c = mantissa (sig_digits s) @ ''e+'' @ pad2 (length s - 1)"
      by (simp_all add: repr_pos_def s_def s'_def Let_def)
    have "CHR ''e'' \<notin> set (repr_pos c')" unfolding r using no_e(2) by simp
    moreover have "CHR ''e'' \<in> set (repr_pos c)" unfolding r by simp
    ultimately show ?thesis using e by simp
  next
    assume a: "\<not> length s \<le> 16" "\<not> length s' \<le> 16"
    then have l: "16 < length s" "16 < length s'" by simp_all
    from a have r: "repr_pos c = mantissa (sig_digits s) @ CHR ''e'' # CHR ''+'' # pad2 (length s - 1)"
      "repr_pos c' = mantissa (sig_digits s') @ CHR ''e'' # CHR ''+'' # pad2 (length s' - 1)"
      by (simp_all add: repr_pos_def s_def s'_def Let_def)
    from sci_facts [OF sn(1) l(1)] have f1: "sig_digits s \<noteq> []"
      "CHR ''e'' \<notin> set (mantissa (sig_digits s))"
      "pad2 (length s - 1) = str_nat (length s - 1)" by simp_all
    from sci_facts [OF sn(2) l(2)] have f2: "sig_digits s' \<noteq> []"
      "CHR ''e'' \<notin> set (mantissa (sig_digits s'))"
      "pad2 (length s' - 1) = str_nat (length s' - 1)" by simp_all
    from e [unfolded r] have "mantissa (sig_digits s) = mantissa (sig_digits s')
        \<and> CHR ''+'' # pad2 (length s - 1) = CHR ''+'' # pad2 (length s' - 1)"
      by (rule split_at_first [OF f1(2) f2(2)])
    then have m: "mantissa (sig_digits s) = mantissa (sig_digits s')"
      and p0: "pad2 (length s - 1) = pad2 (length s' - 1)"
      by simp_all
    from p0 have p: "str_nat (length s - 1) = str_nat (length s' - 1)"
      by (simp only: f1(3) f2(3))
    from f1(1) f2(1) m have sg: "sig_digits s = sig_digits s'" by (rule mantissa_inj)
    from p have "length s - 1 = length s' - 1" by (rule str_nat_inj)
    with l have len: "length s = length s'" by simp
    have "s = sig_digits s @ replicate (length s - length (sig_digits s)) CHR ''0''"
      by (rule sig_digits_replicate)
    also have "\<dots> = sig_digits s' @ replicate (length s' - length (sig_digits s')) CHR ''0''"
      by (simp only: sg len)
    also have "\<dots> = s'" by (rule sig_digits_replicate [symmetric])
    finally have "s = s'" .
    then show ?thesis using c unfolding s_def s'_def by (intro str_pos_inj)
  qed
qed

lemma hd_repr_pos: "0 \<le> c \<Longrightarrow> hd (repr_pos c) \<noteq> CHR ''-''"
proof -
  assume c: "0 \<le> c"
  define s where "s = str_pos c"
  have sn: "s = str_nat (nat c)" using c by (simp add: s_def str_pos_nat)
  have ne: "s \<noteq> []" unfolding sn by (rule str_nat_not_Nil)
  have dig: "\<And>ch. ch \<in> set s \<Longrightarrow> is_digit ch" unfolding sn by (rule str_nat_digits)
  show ?thesis
  proof (cases "length s \<le> 16")
    case True
    then have "hd (repr_pos c) = hd s" using ne by (simp add: repr_pos_def s_def [symmetric] Let_def)
    moreover have "hd s \<in> set s" using ne by simp
    ultimately have "is_digit (hd (repr_pos c))" using dig by simp
    then show ?thesis by (rule is_digit_not_minus)
  next
    case False
    then have n: "\<not> nat c < 10" unfolding sn by (auto simp: length_str_nat_small)
    then have "hd s \<noteq> CHR ''0''" unfolding sn by (rule hd_str_nat)
    moreover have "hd s \<in> set s" using ne by simp
    ultimately have "sig_digits s \<noteq> []" by (rule sig_digits_not_Nil [rotated])
    then have "hd (sig_digits s) \<in> set (sig_digits s)" by simp
    then have "hd (sig_digits s) \<in> set s" using set_sig_digits [of s] by blast
    moreover have "hd (repr_pos c) = hd (sig_digits s)"
      using False by (simp add: repr_pos_def s_def [symmetric] Let_def mantissa_def)
    ultimately have "is_digit (hd (repr_pos c))" using dig by simp
    then show ?thesis by (rule is_digit_not_minus)
  qed
qed

lemma float_repr_inj:
  assumes "float_repr (to_double m) = float_repr (to_double n)"
  shows "to_double m = to_double n"
proof -
  have key: "x = y"
    if d: "round53 x = x" "round53 y = y" "0 \<le> x" "0 \<le> y"
      and r: "repr_pos (shortest x) = repr_pos (shortest y)" for x y
  proof -
    have "shortest x = shortest y"
      using shortest_nonneg [OF d(3)] shortest_nonneg [OF d(4)] r by (rule repr_pos_inj)
    then have "round53 (shortest x) = round53 (shortest y)" by simp
    then show ?thesis by (simp only: shortest_sound [OF d(1)] shortest_sound [OF d(2)])
  qed
  have neq: "CHR ''-'' # u \<noteq> repr_pos (shortest x)" if "0 \<le> x" for u x
  proof
    assume "CHR ''-'' # u = repr_pos (shortest x)"
    then have "hd (CHR ''-'' # u) = hd (repr_pos (shortest x))" by (rule arg_cong)
    then show False using hd_repr_pos [OF shortest_nonneg [OF that]] by simp
  qed
  show ?thesis
  proof (cases "m < 0"; cases "n < 0")
    assume a: "m < 0" "n < 0"
    then have p: "0 < round53 (- m)" "0 < round53 (- n)" by (simp_all add: round53_pos)
    with a assms have "repr_pos (shortest (round53 (- m))) = repr_pos (shortest (round53 (- n)))"
      by (simp add: to_double_def float_repr_def)
    then have "round53 (- m) = round53 (- n)"
      by (rule key [OF round53_idem round53_idem less_imp_le [OF p(1)] less_imp_le [OF p(2)]])
    with a show ?thesis by (simp add: to_double_def)
  next
    assume a: "m < 0" "\<not> n < 0"
    then have p: "0 < round53 (- m)" "0 \<le> round53 n" by (simp_all add: round53_pos round53_nonneg)
    with a assms neq [OF p(2)] show ?thesis by (simp add: to_double_def float_repr_def)
  next
    assume a: "\<not> m < 0" "n < 0"
    then have p: "0 \<le> round53 m" "0 < round53 (- n)" by (simp_all add: round53_pos round53_nonneg)
    with a assms neq [OF p(1), of "repr_pos (shortest (round53 (- n)))"] show ?thesis
      by (simp add: to_double_def float_repr_def)
  next
    assume a: "\<not> m < 0" "\<not> n < 0"
    then have p: "0 \<le> round53 m" "0 \<le> round53 n" by (simp_all add: round53_nonneg)
    with a assms have "repr_pos (shortest (round53 m)) = repr_pos (shortest (round53 n))"
      by (simp add: to_double_def float_repr_def)
    then have "round53 m = round53 n"
      by (rule key [OF round53_idem round53_idem p])
    with a show ?thesis by (simp add: to_double_def)
  qed
qed

lemma py_str_inj_on_group_keys: "inj_on py_str (set (group_keys c))"
  by (cases c) (auto simp: inj_on_def dest: str_int_inj float_repr_inj)

lemma pad2_eq: "n < 100 \<Longrightarrow> pad2 n = [digit (n div 10), digit (n mod 10)]"
proof (cases "n < 10")
  case True
  then show ?thesis by (simp add: pad2_def str_nat_small digit_0)
next
  case False
  assume "n < 100"
  with False have "n div 10 < 10" by simp
  with False show ?thesis by (simp add: pad2_def str_nat_large str_nat_small)
qed

lemma str_nat_year:
  assumes "1000 \<le> n" "n \<le> 9999"
  shows "str_nat n = [digit (n div 1000), digit (n div 100 mod 10), digit (n div 10 mod 10), digit (n mod 10)]"
proof -
  have b: "n div 10 div 10 = n div 100" "n div 100 div 10 = n div 1000"
    by (simp_all add: div_mult2_eq [symmetric])
  have a: "\<not> n < 10" "\<not> n div 10 < 10" "\<not> n div 100 < 10" "n div 1000 < 10"
    using assms by simp_all
  have 1: "str_nat n = str_nat (n div 10) @ [digit (n mod 10)]"
    using a(1) by (rule str_nat_large)
  have 2: "str_nat (n div 10) = str_nat (n div 100) @ [digit (n div 10 mod 10)]"
    using str_nat_large [OF a(2)] unfolding b .
  have 3: "str_nat (n div 100) = str_nat (n div 1000) @ [digit (n div 100 mod 10)]"
    using str_nat_large [OF a(3)] unfolding b .
  have 4: "str_nat (n div 1000) = [digit (n div 1000)]"
    using a(4) by (rule str_nat_small)
  show ?thesis
    by (simp only: 1 2 3 4 append.simps)
qed

lemma strftime_utc_shape: "valid_tm t \<Longrightarrow> is_utc_timestamp (strftime_utc t)"
proof -
  assume v: "valid_tm t"
  then have y: "1000 \<le> tm_year t" "tm_year t \<le> 9999"
    and f: "tm_mon t < 100" "tm_mday t < 100" "tm_hour t < 100" "tm_min t < 100" "tm_sec t < 100"
    by (simp_all add: valid_tm_def)
  have d: "\<And>n. is_digit (digit (n mod 10))" by (simp add: is_digit_digit)
  have d': "\<And>n. n < 100 \<Longrightarrow> is_digit (digit (n div 10))" by (simp add: is_digit_digit)
  have dy: "is_digit (digit (tm_year t div 1000))" using y by (simp add: is_digit_digit)
  show ?thesis
    unfolding strftime_utc_def str_nat_year [OF y] pad2_eq [OF f(1)] pad2_eq [OF f(2)]
      pad2_eq [OF f(3)] pad2_eq [OF f(4)] pad2_eq [OF f(5)] is_utc_timestamp_def
    using d d' f dy by simp
qed

section \<open>The store operations, step by step\<close>

lemma put_object_eq:
  "put_object e b k obj w =
     (if put_fails e b k
      then (Inl (ClientError (PutObject b k)), w\<lparr>trace := trace w @ [PutObject b k]\<rparr>)
      else (Inr (), w\<lparr>store := AList.update (b, k) obj (store w),
                       trace := trace w @ [PutObject b k]\<rparr>))"
  by (simp add: put_object_def log_op_def Let_def)

lemma write_one_partition_eq:
  "write_one_partition e t w =
     (task_result e t, w\<lparr>store := task_store e t (store w), trace := trace w @ [task_op t]\<rparr>)"
  by (cases t)
    (simp add: write_one_partition_def put_object_eq task_result_def task_store_def task_op_def
      task_fails_def task_key_def)

lemma run_tasks_eq:
  "run_tasks e ts w =
     (map (task_result e) ts,
      w\<lparr>store := fold (task_store e) ts (store w), trace := trace w @ map task_op ts\<rparr>)"
  by (induction ts arbitrary: w) (simp_all add: write_one_partition_eq)

lemma collect_results_ok:
  "collect_results b (map Inr ks) outs = Inr (outs @ map (s3_url b) ks)"
  by (induction ks arbitrary: outs) simp_all

lemma collect_results_fail:
  "collect_results b (map Inr ks @ Inl err # rest) outs = Inl err"
  by (induction ks arbitrary: outs) simp_all

lemma task_results_ok:
  "\<forall>t \<in> set ts. \<not> task_fails e t \<Longrightarrow> map (task_result e) ts = map Inr (map task_key ts)"
  by (simp add: task_result_def)

lemma task_results_fail:
  assumes "\<forall>t \<in> set ok. \<not> task_fails e t" "task_fails e t"
  shows "map (task_result e) (ok @ t # rest)
       = map Inr (map task_key ok) @ Inl (ClientError (task_op t)) # map (task_result e) rest"
  using assms by (simp add: task_result_def)

lemma read_parquet_s3_world:
  "snd (read_parquet_s3 e b k w) = w\<lparr>trace := trace w @ [GetObject b k]\<rparr>"
  by (simp add: read_parquet_s3_def log_op_def Let_def split: option.splits s3_object.splits)

lemma mset_insert_at: "mset (insert_at i x xs) = add_mset x (mset xs)"
proof -
  have "mset (take i xs) + mset (drop i xs) = mset xs"
    by (metis append_take_drop_id mset_append)
  then show ?thesis by (simp add: insert_at_def)
qed

lemma mset_as_completed: "mset (as_completed picks xs) = mset xs"
  by (induction xs arbitrary: picks) (simp_all add: mset_insert_at)

lemma set_as_completed: "set (as_completed picks xs) = set xs"
  using mset_as_completed [of picks xs] by (metis set_mset_mset)

lemma distinct_as_completed: "distinct (map f (as_completed picks xs)) = distinct (map f xs)"
proof -
  have "mset (map f (as_completed picks xs)) = mset (map f xs)"
    using mset_as_completed [of picks xs] by (metis mset_map)
  then show ?thesis by (rule mset_eq_imp_distinct_iff)
qed

section \<open>A unit, step by step\<close>

lemma collect_task_results_gen:
  "collect_results b (map (task_result e) ts) outs =
     (case find (task_fails e) ts of
        None \<Rightarrow> Inr (outs @ map (s3_url b) (map task_key ts))
      | Some t \<Rightarrow> Inl (ClientError (task_op t)))"
  by (induction ts arbitrary: outs) (simp_all add: task_result_def split: option.splits)

lemma collect_task_results:
  "collect_results b (map (task_result e) ts) [] =
     (case find (task_fails e) ts of
        None \<Rightarrow> Inr (map (s3_url b) (map task_key ts))
      | Some t \<Rightarrow> Inl (ClientError (task_op t)))"
  using collect_task_results_gen [of b e ts "[]"] by (simp split: option.splits)

lemma find_first: "\<forall>x \<in> set ok. \<not> P x \<Longrightarrow> P t \<Longrightarrow> find P (ok @ t # rest) = Some t"
  by (induction ok) simp_all

lemma find_None: "\<forall>x \<in> set xs. \<not> P x \<Longrightarrow> find P xs = None"
  by (simp add: find_None_iff)

lemma write_marker_eq:
  "write_marker e cfg d outs w =
     (if put_fails e (out_bucket cfg) (marker_key_of cfg d)
      then (Inl (ClientError (PutObject (out_bucket cfg) (marker_key_of cfg d))),
            w\<lparr>trace := trace w @ [PutObject (out_bucket cfg) (marker_key_of cfg d)]\<rparr>)
      else (Inr True,
            w\<lparr>store := AList.update (out_bucket cfg, marker_key_of cfg d)
                        (JsonObj \<lparr>m_kind = kind cfg, m_date = d,
                                  m_input_key = s3_url (in_bucket cfg) (in_key_of cfg d),
                                  m_outputs = outs, m_output_count = length outs,
                                  m_generated_at = strftime_utc (gmtime e d)\<rparr>)
                        (store w),
               trace := trace w @ [PutObject (out_bucket cfg) (marker_key_of cfg d)]\<rparr>))"
  by (simp add: write_marker_def put_json_def put_object_eq Let_def)

lemma split_and_mark_eq:
  "split_and_mark e cfg d df w =
     (if max_workers cfg \<le> 0 then (Inl (ValueError ''max_workers must be greater than 0''), w)
      else case groupby df ''Item_ID'' of
             Inl err \<Rightarrow> (Inl err, w)
           | Inr groups \<Rightarrow>
               (case find (task_fails e) (as_completed (completion e d) (submit_all cfg d groups)) of
                  Some t \<Rightarrow>
                    (Inl (ClientError (task_op t)),
                     w\<lparr>store := fold (task_store e)
                                  (as_completed (completion e d) (submit_all cfg d groups)) (store w),
                        trace := trace w
                          @ map task_op (as_completed (completion e d) (submit_all cfg d groups))\<rparr>)
                | None \<Rightarrow>
                    write_marker e cfg d
                      (map (s3_url (out_bucket cfg))
                         (map task_key (as_completed (completion e d) (submit_all cfg d groups))))
                      (w\<lparr>store := fold (task_store e)
                                   (as_completed (completion e d) (submit_all cfg d groups)) (store w),
                         trace := trace w
                           @ map task_op (as_completed (completion e d) (submit_all cfg d groups))\<rparr>)))"
  by (simp add: split_and_mark_def run_tasks_eq collect_task_results
      split: sum.splits option.splits)

lemma process_date_eq:
  "process_date e cfg d w =
     (if get_fails e (in_bucket cfg) (in_key_of cfg d)
      then (Inl (ClientError (GetObject (in_bucket cfg) (in_key_of cfg d))),
            w\<lparr>trace := trace w @ [GetObject (in_bucket cfg) (in_key_of cfg d)]\<rparr>)
      else case map_of (store w) (in_bucket cfg, in_key_of cfg d) of
             None \<Rightarrow> (Inr False, w\<lparr>trace := trace w @ [GetObject (in_bucket cfg) (in_key_of cfg d)]\<rparr>)
           | Some (JsonObj doc) \<Rightarrow>
               (Inl ArrowInvalid, w\<lparr>trace := trace w @ [GetObject (in_bucket cfg) (in_key_of cfg d)]\<rparr>)
           | Some (ParquetObj df) \<Rightarrow>
               if df_empty df
               then (Inr False, w\<lparr>trace := trace w @ [GetObject (in_bucket cfg) (in_key_of cfg d)]\<rparr>)
               else if ''Item_ID'' \<notin> set (map fst (df_columns df))
               then (Inl (ValueError ('''Item_ID' column missing in '' @ in_key_of cfg d)),
                     w\<lparr>trace := trace w @ [GetObject (in_bucket cfg) (in_key_of cfg d)]\<rparr>)
               else split_and_mark e cfg d df
                      (w\<lparr>trace := trace w @ [GetObject (in_bucket cfg) (in_key_of cfg d)]\<rparr>))"
  by (simp add: process_date_def read_parquet_s3_def log_op_def Let_def
      split: option.splits s3_object.splits)

section \<open>Skipped units\<close>

text \<open>
  Claim C6. A unit whose input decodes to a table without rows, and a unit whose input object
  is absent when it is read (\<open>NoSuchKey\<close>), is skipped: the outcome is not an error and not a
  mark, the store is what it was, so no output object and no marker exist for it, the only
  call made is the read, and the loop goes on with the next unit and the same count of
  processed units.
\<close>

theorem empty_or_absent_input_is_skipped:
  "(\<not> get_fails e (in_bucket cfg) (in_key_of cfg d)
      \<and> (map_of (store w) (in_bucket cfg, in_key_of cfg d) = None
          \<or> (\<exists>df. map_of (store w) (in_bucket cfg, in_key_of cfg d) = Some (ParquetObj df)
                   \<and> df_index df = []))
    \<longrightarrow> process_date e cfg d w
          = (Inr False, w\<lparr>trace := trace w @ [GetObject (in_bucket cfg) (in_key_of cfg d)]\<rparr>)
        \<and> store (snd (process_date e cfg d w)) = store w
        \<and> new_ops w (snd (process_date e cfg d w)) = [GetObject (in_bucket cfg) (in_key_of cfg d)]
        \<and> process_dates e cfg (d # rest) n w
          = process_dates e cfg rest n (snd (process_date e cfg d w)))"
proof (intro impI)
  assume a: "\<not> get_fails e (in_bucket cfg) (in_key_of cfg d)
      \<and> (map_of (store w) (in_bucket cfg, in_key_of cfg d) = None
          \<or> (\<exists>df. map_of (store w) (in_bucket cfg, in_key_of cfg d) = Some (ParquetObj df)
                   \<and> df_index df = []))"
  then have p: "process_date e cfg d w
      = (Inr False, w\<lparr>trace := trace w @ [GetObject (in_bucket cfg) (in_key_of cfg d)]\<rparr>)"
    by (auto simp: process_date_eq df_empty_def)
  show "process_date e cfg d w
          = (Inr False, w\<lparr>trace := trace w @ [GetObject (in_bucket cfg) (in_key_of cfg d)]\<rparr>)
        \<and> store (snd (process_date e cfg d w)) = store w
        \<and> new_ops w (snd (process_date e cfg d w)) = [GetObject (in_bucket cfg) (in_key_of cfg d)]
        \<and> process_dates e cfg (d # rest) n w
          = process_dates e cfg rest n (snd (process_date e cfg d w))"
    by (simp add: p new_ops_def)
qed

theorem empty_or_absent_input_is_skipped_witness:
  "process_dates quiet_env ex_cfg [''20250108'', ''20250115''] 0 ex_world
     = process_dates quiet_env ex_cfg [''20250115''] 0
         (ex_world\<lparr>trace := [GetObject ''inb'' ''in/20250108.parquet'']\<rparr>)
   \<and> process_dates quiet_env ex_cfg [''20250115''] 0 ex_world
     = (Inr 0, ex_world\<lparr>trace := [GetObject ''inb'' ''in/20250115.parquet'']\<rparr>)"
proof -
  have g: "\<not> get_fails quiet_env (in_bucket ex_cfg) (in_key_of ex_cfg ''20250108'')"
    "\<not> get_fails quiet_env (in_bucket ex_cfg) (in_key_of ex_cfg ''20250115'')"
    by (simp_all add: quiet_env_def)
  have z: "map_of (store ex_world) (in_bucket ex_cfg, in_key_of ex_cfg ''20250108'')
      = Some (ParquetObj empty_df) \<and> df_index empty_df = []"
    by (simp add: ex_world_def ex_cfg_def in_key_of_def empty_df_def)
  have a: "map_of (store ex_world) (in_bucket ex_cfg, in_key_of ex_cfg ''20250115'') = None"
    by (simp add: ex_world_def ex_cfg_def in_key_of_def)
  have t: "trace ex_world = []" "in_bucket ex_cfg = ''inb''"
    "in_key_of ex_cfg ''20250108'' = ''in/20250108.parquet''"
    "in_key_of ex_cfg ''20250115'' = ''in/20250115.parquet''"
    by (simp_all add: ex_world_def ex_cfg_def in_key_of_def)
  from empty_or_absent_input_is_skipped [of quiet_env ex_cfg "''20250108''" ex_world "[''20250115'']" 0]
    g(1) z
  have 1: "process_dates quiet_env ex_cfg [''20250108'', ''20250115''] 0 ex_world
     = process_dates quiet_env ex_cfg [''20250115''] 0
         (ex_world\<lparr>trace := [GetObject ''inb'' ''in/20250108.parquet'']\<rparr>)"
    by (simp add: t)
  from empty_or_absent_input_is_skipped [of quiet_env ex_cfg "''20250115''" ex_world "[]" 0]
    g(2) a
  have 2: "process_dates quiet_env ex_cfg [''20250115''] 0 ex_world
     = (Inr 0, ex_world\<lparr>trace := [GetObject ''inb'' ''in/20250115.parquet'']\<rparr>)"
    by (simp add: t)
  from 1 2 show ?thesis by blast
qed

section \<open>A table without the key column\<close>

lemma process_dates_append:
  "process_dates e cfg (xs @ ys) n w =
     (case process_dates e cfg xs n w of
        (Inl err, w') \<Rightarrow> (Inl err, w')
      | (Inr n', w') \<Rightarrow> process_dates e cfg ys n' w')"
  by (induction xs arbitrary: n w) (auto split: prod.splits sum.splits)

text \<open>
  The claim C7 as stated fails on a table that lacks \<open>Item_ID\<close> and has no rows: the test for
  an empty table comes first, the unit is skipped and the run ends without an error.
\<close>

theorem empty_table_without_key_column_is_skipped:
  "''Item_ID'' \<notin> set (map fst (df_columns no_key_empty_df))
   \<and> map_of (store no_key_empty_world) (''inb'', ''in/20250101.parquet'')
       = Some (ParquetObj no_key_empty_df)
   \<and> fst (process_kind quiet_env ex_cfg no_key_empty_world)
       = Inr \<lparr>s_kind = ''sales'', s_input_files = 1, s_output_files = 0,
              s_missing_dates = [''20250101''], s_processed_days = 0\<rparr>"
  by code_simp

text \<open>
  Claim C7, amended. If a loaded input table that is not empty lacks the column \<open>Item_ID\<close>,
  the run ends with the \<open>ValueError\<close> of line 159 right after the read of that unit: nothing is
  written, so there is no marker and no partition for the unit, and no later unit is attempted.
  An empty table, with or without the column, is skipped after its read: the loop goes on with
  the next unit and the same count.
\<close>

theorem missing_key_column_aborts_run:
  "(process_dates e cfg before n0 w0 = (Inr n, w)
      \<and> \<not> get_fails e (in_bucket cfg) (in_key_of cfg d)
      \<and> map_of (store w) (in_bucket cfg, in_key_of cfg d) = Some (ParquetObj df)
      \<and> \<not> df_empty df \<and> ''Item_ID'' \<notin> set (map fst (df_columns df))
    \<longrightarrow> process_dates e cfg (before @ d # rest) n0 w0
          = (Inl (ValueError ('''Item_ID' column missing in '' @ in_key_of cfg d)),
             w\<lparr>trace := trace w @ [GetObject (in_bucket cfg) (in_key_of cfg d)]\<rparr>))
   \<and> (\<not> get_fails e' (in_bucket cfg') (in_key_of cfg' d')
      \<and> map_of (store w') (in_bucket cfg', in_key_of cfg' d') = Some (ParquetObj df')
      \<and> df_empty df'
    \<longrightarrow> process_date e' cfg' d' w'
          = (Inr False, w'\<lparr>trace := trace w' @ [GetObject (in_bucket cfg') (in_key_of cfg' d')]\<rparr>)
        \<and> process_dates e' cfg' (d' # rest') n' w'
          = process_dates e' cfg' rest' n'
              (w'\<lparr>trace := trace w' @ [GetObject (in_bucket cfg') (in_key_of cfg' d')]\<rparr>))"
proof (intro conjI impI)
  assume "process_dates e cfg before n0 w0 = (Inr n, w)
      \<and> \<not> get_fails e (in_bucket cfg) (in_key_of cfg d)
      \<and> map_of (store w) (in_bucket cfg, in_key_of cfg d) = Some (ParquetObj df)
      \<and> \<not> df_empty df \<and> ''Item_ID'' \<notin> set (map fst (df_columns df))"
  then show "process_dates e cfg (before @ d # rest) n0 w0
          = (Inl (ValueError ('''Item_ID' column missing in '' @ in_key_of cfg d)),
             w\<lparr>trace := trace w @ [GetObject (in_bucket cfg) (in_key_of cfg d)]\<rparr>)"
    by (simp add: process_dates_append process_date_eq)
next
  assume a: "\<not> get_fails e' (in_bucket cfg') (in_key_of cfg' d')
      \<and> map_of (store w') (in_bucket cfg', in_key_of cfg' d') = Some (ParquetObj df')
      \<and> df_empty df'"
  then show p: "process_date e' cfg' d' w'
          = (Inr False, w'\<lparr>trace := trace w' @ [GetObject (in_bucket cfg') (in_key_of cfg' d')]\<rparr>)"
    by (simp add: process_date_eq)
  show "process_dates e' cfg' (d' # rest') n' w'
          = process_dates e' cfg' rest' n'
              (w'\<lparr>trace := trace w' @ [GetObject (in_bucket cfg') (in_key_of cfg' d')]\<rparr>)"
    by (simp add: p)
qed

theorem missing_key_column_aborts_run_witness:
  "process_dates quiet_env ex_cfg [''20250101'', ''20250108''] 0 no_key_world
     = (Inl (ValueError '''Item_ID' column missing in in/20250101.parquet''),
        no_key_world\<lparr>trace := [GetObject ''inb'' ''in/20250101.parquet'']\<rparr>)
   \<and> ''Item_ID'' \<notin> set (map fst (df_columns no_key_empty_df))
   \<and> process_date quiet_env ex_cfg ''20250101'' no_key_empty_world
     = (Inr False, no_key_empty_world\<lparr>trace := [GetObject ''inb'' ''in/20250101.parquet'']\<rparr>)
   \<and> process_dates quiet_env ex_cfg [''20250101'', ''20250108''] 0 no_key_empty_world
     = process_dates quiet_env ex_cfg [''20250108''] 0
         (no_key_empty_world\<lparr>trace := [GetObject ''inb'' ''in/20250101.parquet'']\<rparr>)"
proof -
  have h: "process_dates quiet_env ex_cfg [] 0 no_key_world = (Inr 0, no_key_world)
     \<and> \<not> get_fails quiet_env (in_bucket ex_cfg) (in_key_of ex_cfg ''20250101'')
     \<and> map_of (store no_key_world) (in_bucket ex_cfg, in_key_of ex_cfg ''20250101'')
         = Some (ParquetObj no_key_df)
     \<and> \<not> df_empty no_key_df \<and> ''Item_ID'' \<notin> set (map fst (df_columns no_key_df))"
    by (simp add: quiet_env_def no_key_world_def ex_cfg_def in_key_of_def no_key_df_def df_empty_def)
  have h': "\<not> get_fails quiet_env (in_bucket ex_cfg) (in_key_of ex_cfg ''20250101'')
     \<and> map_of (store no_key_empty_world) (in_bucket ex_cfg, in_key_of ex_cfg ''20250101'')
         = Some (ParquetObj no_key_empty_df)
     \<and> df_empty no_key_empty_df"
    by (simp add: quiet_env_def no_key_empty_world_def ex_cfg_def in_key_of_def
        no_key_empty_df_def df_empty_def)
  have k: "''Item_ID'' \<notin> set (map fst (df_columns no_key_empty_df))"
    by (simp add: no_key_empty_df_def)
  have t: "trace no_key_world = []" "trace no_key_empty_world = []" "in_bucket ex_cfg = ''inb''"
    "in_key_of ex_cfg ''20250101'' = ''in/20250101.parquet''"
    by (simp_all add: no_key_world_def no_key_empty_world_def ex_cfg_def in_key_of_def)
  from missing_key_column_aborts_run
    [of quiet_env ex_cfg "[]" 0 no_key_world 0 no_key_world "''20250101''" no_key_df "[''20250108'']"
        quiet_env ex_cfg "''20250101''" no_key_empty_world no_key_empty_df "[''20250108'']" 0] h h' k
  show ?thesis by (simp add: t)
qed

section \<open>The store after the writes of a unit\<close>

lemma map_of_task_store:
  "map_of (task_store e t st) =
     (if task_fails e t then map_of st
      else (map_of st)((fst (snd t), task_key t) \<mapsto> df_to_parquet_bytes (fst t)))"
  by (cases t) (simp add: task_store_def task_fails_def task_key_def update_conv')

lemma map_of_task_store_other:
  "(fst (snd t), task_key t) \<noteq> bk \<Longrightarrow> map_of (task_store e t st) bk = map_of st bk"
  by (simp add: map_of_task_store)

lemma map_of_fold_unchanged:
  "\<forall>t \<in> set ts. (fst (snd t), task_key t) \<noteq> bk \<Longrightarrow>
   map_of (fold (task_store e) ts st) bk = map_of st bk"
proof (induction ts arbitrary: st)
  case Nil
  then show ?case by simp
next
  case (Cons a ts)
  then have a: "(fst (snd a), task_key a) \<noteq> bk"
    and r: "\<forall>t \<in> set ts. (fst (snd t), task_key t) \<noteq> bk" by simp_all
  have "map_of (fold (task_store e) (a # ts) st) bk = map_of (fold (task_store e) ts (task_store e a st)) bk"
    by simp
  also have "\<dots> = map_of (task_store e a st) bk" using r by (rule Cons.IH)
  also have "\<dots> = map_of st bk" using a by (rule map_of_task_store_other)
  finally show ?case .
qed

lemma map_of_fold_keeps:
  "map_of st bk \<noteq> None \<Longrightarrow> map_of (fold (task_store e) ts st) bk \<noteq> None"
  by (induction ts arbitrary: st) (simp_all add: map_of_task_store)

lemma map_of_fold_present:
  "t \<in> set ts \<Longrightarrow> \<not> task_fails e t \<Longrightarrow>
   map_of (fold (task_store e) ts st) (fst (snd t), task_key t) \<noteq> None"
proof (induction ts arbitrary: st)
  case Nil
  then show ?case by simp
next
  case (Cons a ts)
  show ?case
  proof (cases "t = a")
    case True
    with Cons.prems have "map_of (task_store e a st) (fst (snd t), task_key t) \<noteq> None"
      by (simp add: map_of_task_store)
    then show ?thesis using map_of_fold_keeps by simp
  next
    case False
    with Cons show ?thesis by simp
  qed
qed

lemma map_of_fold_written:
  "distinct (map (\<lambda>t. (fst (snd t), task_key t)) ts) \<Longrightarrow> t \<in> set ts \<Longrightarrow> \<not> task_fails e t \<Longrightarrow>
   map_of (fold (task_store e) ts st) (fst (snd t), task_key t) = Some (df_to_parquet_bytes (fst t))"
proof (induction ts arbitrary: st)
  case Nil
  then show ?case by simp
next
  case (Cons a ts)
  show ?case
  proof (cases "t = a")
    case True
    from Cons.prems(1) have "(fst (snd a), task_key a) \<notin> (\<lambda>t. (fst (snd t), task_key t)) ` set ts"
      by simp
    then have "\<forall>x \<in> set ts. (fst (snd x), task_key x) \<noteq> (fst (snd a), task_key a)"
      by (intro ballI notI) (erule notE, erule subst, rule imageI, assumption)
    then have "map_of (fold (task_store e) ts (task_store e a st)) (fst (snd a), task_key a)
        = map_of (task_store e a st) (fst (snd a), task_key a)"
      by (rule map_of_fold_unchanged)
    with True Cons.prems(3) show ?thesis by (simp add: map_of_task_store)
  next
    case False
    with Cons show ?thesis by simp
  qed
qed

lemma submit_all_task:
  "t \<in> set (submit_all cfg d groups) \<Longrightarrow>
   fst (snd t) = out_bucket cfg
   \<and> (\<exists>v sub. (v, sub) \<in> set groups \<and> fst t = sub \<and> task_key t = out_key_of cfg v d)"
  by (auto simp: submit_all_def task_key_def)

lemma task_op_submit_all:
  "t \<in> set (submit_all cfg d groups) \<Longrightarrow> task_op t = PutObject (out_bucket cfg) (task_key t)"
  by (auto simp: submit_all_def task_key_def task_op_def)

lemma last_parquet: "last (s @ ''.parquet'') = CHR ''t''"
  by simp

lemma last_json: "last (s @ ''.json'') = CHR ''n''"
  by simp

lemma out_key_neq_marker_key: "out_key_of cfg v d \<noteq> marker_key_of cfg' d'"
proof
  assume "out_key_of cfg v d = marker_key_of cfg' d'"
  then have "last (out_key_of cfg v d) = last (marker_key_of cfg' d')" by simp
  moreover have "last (out_key_of cfg v d) = CHR ''t''"
    unfolding out_key_of_def using last_parquet [of "out_prefix cfg @ py_str v @ ''/'' @ d"] by simp
  moreover have "last (marker_key_of cfg' d') = CHR ''n''"
    unfolding marker_key_of_def using last_json [of "marker_prefix cfg' @ d'"] by simp
  ultimately show False by simp
qed

section \<open>A failed partition write\<close>

lemma in_set_Cons_neq: "y \<in> set (a # xs) \<Longrightarrow> a \<noteq> y \<Longrightarrow> y \<in> set xs"
  by auto

lemma process_date_split:
  "\<not> get_fails e (in_bucket cfg) (in_key_of cfg d) \<Longrightarrow>
   map_of (store w) (in_bucket cfg, in_key_of cfg d) = Some (ParquetObj df) \<Longrightarrow>
   \<not> df_empty df \<Longrightarrow> ''Item_ID'' \<in> set (map fst (df_columns df)) \<Longrightarrow>
   process_date e cfg d w
     = split_and_mark e cfg d df (w\<lparr>trace := trace w @ [GetObject (in_bucket cfg) (in_key_of cfg d)]\<rparr>)"
  by (simp add: process_date_eq)

lemma split_and_mark_fail:
  assumes "0 < max_workers cfg" "groupby df ''Item_ID'' = Inr groups"
    and "as_completed (completion e d) (submit_all cfg d groups) = ok @ t # rest"
    and "\<forall>x \<in> set ok. \<not> task_fails e x" "task_fails e t"
  shows "split_and_mark e cfg d df w
     = (Inl (ClientError (task_op t)),
        w\<lparr>store := fold (task_store e) (ok @ t # rest) (store w),
           trace := trace w @ map task_op (ok @ t # rest)\<rparr>)"
  using assms(1,2) find_first [OF assms(4,5), of rest]
  by (simp add: split_and_mark_eq assms(3))

text \<open>
  Claim C3. If a partition write of a unit fails, the run ends with the failure of the first
  task, in the order of completion, that failed; every task of the unit was still run (its
  call is logged and, where the call succeeded, its object is in the store); no marker is
  written for the unit; and the world at the end of the run is the world after those writes,
  so no later unit is read or written.
\<close>

theorem partition_write_failure_aborts_run:
  "process_dates e cfg before n0 w0 = (Inr n, w)
   \<and> \<not> get_fails e (in_bucket cfg) (in_key_of cfg d)
   \<and> map_of (store w) (in_bucket cfg, in_key_of cfg d) = Some (ParquetObj df)
   \<and> \<not> df_empty df \<and> ''Item_ID'' \<in> set (map fst (df_columns df)) \<and> 0 < max_workers cfg
   \<and> groupby df ''Item_ID'' = Inr groups
   \<and> (\<exists>t \<in> set (submit_all cfg d groups). task_fails e t)
   \<longrightarrow> (\<exists>ok t rest w'.
          as_completed (completion e d) (submit_all cfg d groups) = ok @ t # rest
        \<and> (\<forall>x \<in> set ok. \<not> task_fails e x) \<and> task_fails e t
        \<and> process_dates e cfg (before @ d # later) n0 w0 = (Inl (ClientError (task_op t)), w')
        \<and> new_ops w w'
            = GetObject (in_bucket cfg) (in_key_of cfg d)
              # map (\<lambda>x. PutObject (out_bucket cfg) (task_key x)) (ok @ t # rest)
        \<and> PutObject (out_bucket cfg) (marker_key_of cfg d) \<notin> set (new_ops w w')
        \<and> map_of (store w') (out_bucket cfg, marker_key_of cfg d)
            = map_of (store w) (out_bucket cfg, marker_key_of cfg d)
        \<and> (\<forall>x \<in> set (ok @ t # rest).
              \<not> task_fails e x \<longrightarrow> map_of (store w') (out_bucket cfg, task_key x) \<noteq> None))"
proof (intro impI)
  let ?tasks = "as_completed (completion e d) (submit_all cfg d groups)"
  let ?w1 = "w\<lparr>trace := trace w @ [GetObject (in_bucket cfg) (in_key_of cfg d)]\<rparr>"
  assume a: "process_dates e cfg before n0 w0 = (Inr n, w)
   \<and> \<not> get_fails e (in_bucket cfg) (in_key_of cfg d)
   \<and> map_of (store w) (in_bucket cfg, in_key_of cfg d) = Some (ParquetObj df)
   \<and> \<not> df_empty df \<and> ''Item_ID'' \<in> set (map fst (df_columns df)) \<and> 0 < max_workers cfg
   \<and> groupby df ''Item_ID'' = Inr groups
   \<and> (\<exists>t \<in> set (submit_all cfg d groups). task_fails e t)"
  then have "\<exists>t \<in> set ?tasks. task_fails e t" by (simp add: set_as_completed)
  then obtain ok t rest where sp: "?tasks = ok @ t # rest" "task_fails e t"
    "\<forall>x \<in> set ok. \<not> task_fails e x"
    using split_list_first_prop [of ?tasks "task_fails e"] by blast
  let ?w' = "?w1\<lparr>store := fold (task_store e) (ok @ t # rest) (store ?w1),
                 trace := trace ?w1 @ map task_op (ok @ t # rest)\<rparr>"
  have "set (ok @ t # rest) = set (submit_all cfg d groups)"
    using set_as_completed [of "completion e d" "submit_all cfg d groups"]
    by (simp only: sp(1))
  then have mem: "\<And>x. x \<in> set (ok @ t # rest) \<Longrightarrow> x \<in> set (submit_all cfg d groups)"
    by blast
  have pd: "process_date e cfg d w = (Inl (ClientError (task_op t)), ?w')"
    using a process_date_split [of e cfg d w df]
      split_and_mark_fail [of cfg df groups e d ok t rest ?w1] sp by simp
  have run: "process_dates e cfg (before @ d # later) n0 w0 = (Inl (ClientError (task_op t)), ?w')"
    using a pd by (simp add: process_dates_append)
  have ops: "map task_op (ok @ t # rest)
      = map (\<lambda>x. PutObject (out_bucket cfg) (task_key x)) (ok @ t # rest)"
    by (rule map_cong [OF refl]) (rule task_op_submit_all [OF mem])
  have new: "new_ops w ?w' = GetObject (in_bucket cfg) (in_key_of cfg d)
              # map (\<lambda>x. PutObject (out_bucket cfg) (task_key x)) (ok @ t # rest)"
    unfolding ops [symmetric] by (simp add: new_ops_def)
  have keys: "\<And>x. x \<in> set (ok @ t # rest) \<Longrightarrow> task_key x \<noteq> marker_key_of cfg d"
    using submit_all_task [OF mem] out_key_neq_marker_key by metis
  have nomark: "PutObject (out_bucket cfg) (marker_key_of cfg d) \<notin> set (new_ops w ?w')"
  proof
    assume "PutObject (out_bucket cfg) (marker_key_of cfg d) \<in> set (new_ops w ?w')"
    then have "PutObject (out_bucket cfg) (marker_key_of cfg d)
        \<in> set (map (\<lambda>x. PutObject (out_bucket cfg) (task_key x)) (ok @ t # rest))"
      unfolding new by (rule in_set_Cons_neq) simp
    then obtain x where "x \<in> set (ok @ t # rest)"
      "PutObject (out_bucket cfg) (marker_key_of cfg d) = PutObject (out_bucket cfg) (task_key x)"
      unfolding set_map by (rule imageE)
    then show False using keys [of x] by simp
  qed
  have "\<forall>x \<in> set (ok @ t # rest). (fst (snd x), task_key x) \<noteq> (out_bucket cfg, marker_key_of cfg d)"
    using keys by blast
  then have same: "map_of (store ?w') (out_bucket cfg, marker_key_of cfg d)
      = map_of (store w) (out_bucket cfg, marker_key_of cfg d)"
    using map_of_fold_unchanged [of "ok @ t # rest" "(out_bucket cfg, marker_key_of cfg d)" e "store w"]
    by simp
  have written: "\<forall>x \<in> set (ok @ t # rest).
      \<not> task_fails e x \<longrightarrow> map_of (store ?w') (out_bucket cfg, task_key x) \<noteq> None"
  proof (intro ballI impI)
    fix x assume x: "x \<in> set (ok @ t # rest)" "\<not> task_fails e x"
    have "fst (snd x) = out_bucket cfg" using submit_all_task [OF mem [OF x(1)]] by blast
    with map_of_fold_present [OF x, of "store w"]
    show "map_of (store ?w') (out_bucket cfg, task_key x) \<noteq> None" by simp
  qed
  from sp run new nomark same written
  show "\<exists>ok t rest w'.
          as_completed (completion e d) (submit_all cfg d groups) = ok @ t # rest
        \<and> (\<forall>x \<in> set ok. \<not> task_fails e x) \<and> task_fails e t
        \<and> process_dates e cfg (before @ d # later) n0 w0 = (Inl (ClientError (task_op t)), w')
        \<and> new_ops w w'
            = GetObject (in_bucket cfg) (in_key_of cfg d)
              # map (\<lambda>x. PutObject (out_bucket cfg) (task_key x)) (ok @ t # rest)
        \<and> PutObject (out_bucket cfg) (marker_key_of cfg d) \<notin> set (new_ops w w')
        \<and> map_of (store w') (out_bucket cfg, marker_key_of cfg d)
            = map_of (store w) (out_bucket cfg, marker_key_of cfg d)
        \<and> (\<forall>x \<in> set (ok @ t # rest).
              \<not> task_fails e x \<longrightarrow> map_of (store w') (out_bucket cfg, task_key x) \<noteq> None)"
    by blast
qed

theorem partition_write_failure_aborts_run_witness:
  "\<exists>t w'. task_fails flaky_env t
     \<and> t \<in> set (submit_all ex_cfg ''20250101'' sales_groups)
     \<and> process_dates flaky_env ex_cfg [''20250101'', ''20250108''] 0 ex_world
         = (Inl (ClientError (task_op t)), w')
     \<and> PutObject (out_bucket ex_cfg) (marker_key_of ex_cfg ''20250101'') \<notin> set (new_ops ex_world w')"
proof -
  have g: "groupby sales_df ''Item_ID'' = Inr sales_groups"
    by (simp add: groupby_def sales_df_def sales_groups_def df_select_def select_def non_null_def)
  have f: "\<exists>t \<in> set (submit_all ex_cfg ''20250101'' sales_groups). task_fails flaky_env t"
    by (simp add: submit_all_def sales_groups_def task_fails_def flaky_env_def quiet_env_def
        out_key_of_def ex_cfg_def)
  have h: "process_dates flaky_env ex_cfg [] 0 ex_world = (Inr 0, ex_world)
     \<and> \<not> get_fails flaky_env (in_bucket ex_cfg) (in_key_of ex_cfg ''20250101'')
     \<and> map_of (store ex_world) (in_bucket ex_cfg, in_key_of ex_cfg ''20250101'')
         = Some (ParquetObj sales_df)
     \<and> \<not> df_empty sales_df \<and> ''Item_ID'' \<in> set (map fst (df_columns sales_df))
     \<and> 0 < max_workers ex_cfg"
    by (simp add: flaky_env_def quiet_env_def ex_world_def ex_cfg_def in_key_of_def sales_df_def
        df_empty_def)
  from partition_write_failure_aborts_run
    [of flaky_env ex_cfg "[]" 0 ex_world 0 ex_world "''20250101''" sales_df sales_groups
        "[''20250108'']"] g f h
  obtain ok t rest w' where r:
    "as_completed (completion flaky_env ''20250101'') (submit_all ex_cfg ''20250101'' sales_groups)
       = ok @ t # rest"
    "task_fails flaky_env t"
    "process_dates flaky_env ex_cfg ([] @ ''20250101'' # [''20250108'']) 0 ex_world
       = (Inl (ClientError (task_op t)), w')"
    "PutObject (out_bucket ex_cfg) (marker_key_of ex_cfg ''20250101'') \<notin> set (new_ops ex_world w')"
    by blast
  have "t \<in> set (as_completed (completion flaky_env ''20250101'')
      (submit_all ex_cfg ''20250101'' sales_groups))"
    unfolding r(1) by simp
  then have m: "t \<in> set (submit_all ex_cfg ''20250101'' sales_groups)"
    by (simp only: set_as_completed)
  have p: "process_dates flaky_env ex_cfg [''20250101'', ''20250108''] 0 ex_world
       = (Inl (ClientError (task_op t)), w')"
    using r(3) by (simp only: append_Nil)
  from r(2) m p r(4) show ?thesis by blast
qed

section \<open>A marked unit\<close>

lemma split_and_mark_TrueD:
  assumes "split_and_mark e cfg d df w = (Inr True, w')"
  obtains groups where "0 < max_workers cfg" "groupby df ''Item_ID'' = Inr groups"
    "\<forall>t \<in> set (as_completed (completion e d) (submit_all cfg d groups)). \<not> task_fails e t"
    "\<not> put_fails e (out_bucket cfg) (marker_key_of cfg d)"
    "w' = w\<lparr>store := AList.update (out_bucket cfg, marker_key_of cfg d)
                (JsonObj \<lparr>m_kind = kind cfg, m_date = d,
                   m_input_key = s3_url (in_bucket cfg) (in_key_of cfg d),
                   m_outputs = map (s3_url (out_bucket cfg))
                     (map task_key (as_completed (completion e d) (submit_all cfg d groups))),
                   m_output_count = length (map (s3_url (out_bucket cfg))
                     (map task_key (as_completed (completion e d) (submit_all cfg d groups)))),
                   m_generated_at = strftime_utc (gmtime e d)\<rparr>)
                (fold (task_store e) (as_completed (completion e d) (submit_all cfg d groups))
                   (store w)),
             trace := trace w @ map task_op (as_completed (completion e d) (submit_all cfg d groups))
                @ [PutObject (out_bucket cfg) (marker_key_of cfg d)]\<rparr>"
proof -
  from assms have mw: "0 < max_workers cfg"
    by (auto simp: split_and_mark_eq split: if_splits)
  from assms mw obtain groups where g: "groupby df ''Item_ID'' = Inr groups"
    by (cases "groupby df ''Item_ID''") (auto simp: split_and_mark_eq)
  let ?tasks = "as_completed (completion e d) (submit_all cfg d groups)"
  from assms mw g have f: "find (task_fails e) ?tasks = None"
    by (cases "find (task_fails e) ?tasks") (auto simp: split_and_mark_eq)
  then have nf: "\<forall>t \<in> set ?tasks. \<not> task_fails e t"
    unfolding find_None_iff by blast
  from assms mw g f have pm: "\<not> put_fails e (out_bucket cfg) (marker_key_of cfg d)"
    by (auto simp: split_and_mark_eq write_marker_eq split: if_splits)
  from assms mw g f pm have "w' = w\<lparr>store := AList.update (out_bucket cfg, marker_key_of cfg d)
                (JsonObj \<lparr>m_kind = kind cfg, m_date = d,
                   m_input_key = s3_url (in_bucket cfg) (in_key_of cfg d),
                   m_outputs = map (s3_url (out_bucket cfg)) (map task_key ?tasks),
                   m_output_count = length (map (s3_url (out_bucket cfg)) (map task_key ?tasks)),
                   m_generated_at = strftime_utc (gmtime e d)\<rparr>)
                (fold (task_store e) ?tasks (store w)),
             trace := trace w @ map task_op ?tasks
                @ [PutObject (out_bucket cfg) (marker_key_of cfg d)]\<rparr>"
    by (simp add: split_and_mark_eq write_marker_eq)
  with mw g nf pm that show thesis by blast
qed

lemma process_date_TrueD:
  assumes "process_date e cfg d w = (Inr True, w')"
  obtains df where "\<not> get_fails e (in_bucket cfg) (in_key_of cfg d)"
    "map_of (store w) (in_bucket cfg, in_key_of cfg d) = Some (ParquetObj df)"
    "\<not> df_empty df" "''Item_ID'' \<in> set (map fst (df_columns df))"
    "split_and_mark e cfg d df (w\<lparr>trace := trace w @ [GetObject (in_bucket cfg) (in_key_of cfg d)]\<rparr>)
       = (Inr True, w')"
proof -
  from assms have gf: "\<not> get_fails e (in_bucket cfg) (in_key_of cfg d)"
    by (auto simp: process_date_eq split: if_splits)
  from assms gf obtain obj where o: "map_of (store w) (in_bucket cfg, in_key_of cfg d) = Some obj"
    by (cases "map_of (store w) (in_bucket cfg, in_key_of cfg d)") (auto simp: process_date_eq)
  from assms gf o obtain df where df: "obj = ParquetObj df"
    by (cases obj) (auto simp: process_date_eq)
  from assms gf o df have ne: "\<not> df_empty df"
    by (auto simp: process_date_eq split: if_splits)
  from assms gf o df ne have col: "''Item_ID'' \<in> set (map fst (df_columns df))"
    by (auto simp: process_date_eq split: if_splits)
  from assms gf o df ne col have "split_and_mark e cfg d df
      (w\<lparr>trace := trace w @ [GetObject (in_bucket cfg) (in_key_of cfg d)]\<rparr>) = (Inr True, w')"
    by (simp add: process_date_eq)
  with gf o df ne col that show thesis by blast
qed

lemma out_key_of_inj: "out_key_of cfg v d = out_key_of cfg v' d \<Longrightarrow> py_str v = py_str v'"
  by (simp add: out_key_of_def)

lemma distinct_out_keys: "distinct (map (\<lambda>v. out_key_of cfg v d) (group_keys c))"
proof -
  have "inj_on (\<lambda>v. out_key_of cfg v d) (set (group_keys c))"
  proof (rule inj_onI)
    fix v v' assume "v \<in> set (group_keys c)" "v' \<in> set (group_keys c)"
      "out_key_of cfg v d = out_key_of cfg v' d"
    then show "v = v'"
      using py_str_inj_on_group_keys [of c] out_key_of_inj [of cfg v d v'] by (auto dest: inj_onD)
  qed
  then show ?thesis by (simp add: distinct_map distinct_group_keys)
qed

lemma submit_all_groupby:
  assumes "groupby df ''Item_ID'' = Inr groups"
    and "filter (\<lambda>(name, c). name = ''Item_ID'') (df_columns df) = [(''Item_ID'', c)]"
  shows "submit_all cfg d groups
     = map (\<lambda>v. (df_select (map (\<lambda>k. k = Some v) (col_cells c)) df, out_bucket cfg,
                  out_key_of cfg v d)) (group_keys c)"
proof -
  from assms have "groups = map (\<lambda>v. (v, df_select (map (\<lambda>k. k = Some v) (col_cells c)) df))
      (group_keys c)"
    by (simp add: groupby_def)
  then show ?thesis by (simp add: submit_all_def comp_def)
qed

lemma distinct_pair_map: "distinct (map g xs) \<Longrightarrow> distinct (map (\<lambda>t. (f t, g t)) xs)"
  by (induction xs) auto

lemma task_fails_conv: "task_fails e t = put_fails e (fst (snd t)) (task_key t)"
  by (cases t) (simp add: task_fails_def task_key_def)

lemma unit_success:
  assumes "process_date e cfg d w = (Inr True, w')"
  obtains df c tasks where
    "map_of (store w) (in_bucket cfg, in_key_of cfg d) = Some (ParquetObj df)"
    "\<not> df_empty df"
    "filter (\<lambda>(name, c). name = ''Item_ID'') (df_columns df) = [(''Item_ID'', c)]"
    "tasks = as_completed (completion e d)
       (map (\<lambda>v. (df_select (map (\<lambda>k. k = Some v) (col_cells c)) df, out_bucket cfg,
                   out_key_of cfg v d)) (group_keys c))"
    "\<forall>t \<in> set tasks. \<not> task_fails e t"
    "\<not> put_fails e (out_bucket cfg) (marker_key_of cfg d)"
    "store w' = AList.update (out_bucket cfg, marker_key_of cfg d)
                (JsonObj \<lparr>m_kind = kind cfg, m_date = d,
                   m_input_key = s3_url (in_bucket cfg) (in_key_of cfg d),
                   m_outputs = map (s3_url (out_bucket cfg)) (map task_key tasks),
                   m_output_count = length tasks,
                   m_generated_at = strftime_utc (gmtime e d)\<rparr>)
                (fold (task_store e) tasks (store w))"
    "trace w' = trace w @ GetObject (in_bucket cfg) (in_key_of cfg d)
        # map (PutObject (out_bucket cfg)) (map task_key tasks)
        @ [PutObject (out_bucket cfg) (marker_key_of cfg d)]"
proof -
  let ?w1 = "w\<lparr>trace := trace w @ [GetObject (in_bucket cfg) (in_key_of cfg d)]\<rparr>"
  from assms obtain df where df:
    "map_of (store w) (in_bucket cfg, in_key_of cfg d) = Some (ParquetObj df)" "\<not> df_empty df"
    "split_and_mark e cfg d df ?w1 = (Inr True, w')"
    by (rule process_date_TrueD)
  from df(3) obtain groups where g: "groupby df ''Item_ID'' = Inr groups"
    and nf: "\<forall>t \<in> set (as_completed (completion e d) (submit_all cfg d groups)). \<not> task_fails e t"
    and pm: "\<not> put_fails e (out_bucket cfg) (marker_key_of cfg d)"
    and w': "w' = ?w1\<lparr>store := AList.update (out_bucket cfg, marker_key_of cfg d)
                (JsonObj \<lparr>m_kind = kind cfg, m_date = d,
                   m_input_key = s3_url (in_bucket cfg) (in_key_of cfg d),
                   m_outputs = map (s3_url (out_bucket cfg))
                     (map task_key (as_completed (completion e d) (submit_all cfg d groups))),
                   m_output_count = length (map (s3_url (out_bucket cfg))
                     (map task_key (as_completed (completion e d) (submit_all cfg d groups)))),
                   m_generated_at = strftime_utc (gmtime e d)\<rparr>)
                (fold (task_store e) (as_completed (completion e d) (submit_all cfg d groups))
                   (store ?w1)),
             trace := trace ?w1 @ map task_op (as_completed (completion e d) (submit_all cfg d groups))
                @ [PutObject (out_bucket cfg) (marker_key_of cfg d)]\<rparr>"
    by (rule split_and_mark_TrueD)
  from g obtain c where c: "filter (\<lambda>(name, c). name = ''Item_ID'') (df_columns df) = [(''Item_ID'', c)]"
    by (rule groupby_InrD)
  let ?sub = "map (\<lambda>v. (df_select (map (\<lambda>k. k = Some v) (col_cells c)) df, out_bucket cfg,
                   out_key_of cfg v d)) (group_keys c)"
  let ?tasks = "as_completed (completion e d) ?sub"
  have sub: "submit_all cfg d groups = ?sub" using g c by (rule submit_all_groupby)
  have ops: "map task_op ?tasks = map (PutObject (out_bucket cfg)) (map task_key ?tasks)"
    unfolding map_map
  proof (rule map_cong [OF refl])
    fix t assume "t \<in> set ?tasks"
    then have "t \<in> set (submit_all cfg d groups)" by (simp only: set_as_completed sub)
    then show "task_op t = (PutObject (out_bucket cfg) \<circ> task_key) t"
      by (simp add: task_op_submit_all)
  qed
  have st: "store w' = AList.update (out_bucket cfg, marker_key_of cfg d)
                (JsonObj \<lparr>m_kind = kind cfg, m_date = d,
                   m_input_key = s3_url (in_bucket cfg) (in_key_of cfg d),
                   m_outputs = map (s3_url (out_bucket cfg)) (map task_key ?tasks),
                   m_output_count = length ?tasks,
                   m_generated_at = strftime_utc (gmtime e d)\<rparr>)
                (fold (task_store e) ?tasks (store w))"
    by (simp add: w' sub)
  have tr: "trace w' = trace w @ GetObject (in_bucket cfg) (in_key_of cfg d)
        # map (PutObject (out_bucket cfg)) (map task_key ?tasks)
        @ [PutObject (out_bucket cfg) (marker_key_of cfg d)]"
    using ops by (simp add: w' sub)
  have nf': "\<forall>t \<in> set ?tasks. \<not> task_fails e t" using nf unfolding sub .
  show thesis by (rule that [OF df(1) df(2) c refl nf' pm st tr])
qed

lemma count_distinct_values:
  "length (group_keys c) = card {v. Some v \<in> set (col_cells c)}"
  using distinct_card [OF distinct_group_keys [of c]] by (simp add: set_group_keys)

lemma marked_unit_facts:
  "process_date e cfg d w = (Inr True, w') \<Longrightarrow>
   (\<exists>df c keys.
      map_of (store w) (in_bucket cfg, in_key_of cfg d) = Some (ParquetObj df)
    \<and> filter (\<lambda>(name, c). name = ''Item_ID'') (df_columns df) = [(''Item_ID'', c)]
    \<and> mset keys = mset (map (\<lambda>v. out_key_of cfg v d) (group_keys c))
    \<and> new_ops w w' = GetObject (in_bucket cfg) (in_key_of cfg d)
         # map (PutObject (out_bucket cfg)) keys
         @ [PutObject (out_bucket cfg) (marker_key_of cfg d)]
    \<and> PutObject (out_bucket cfg) (marker_key_of cfg d)
         \<notin> set (map (PutObject (out_bucket cfg)) keys)
    \<and> (\<forall>k \<in> set keys. \<not> put_fails e (out_bucket cfg) k)
    \<and> (\<forall>v \<in> set (group_keys c).
          map_of (store w') (out_bucket cfg, out_key_of cfg v d)
            = Some (df_to_parquet_bytes (df_select (map (\<lambda>k. k = Some v) (col_cells c)) df)))
    \<and> map_of (store w') (out_bucket cfg, marker_key_of cfg d)
         = Some (JsonObj \<lparr>m_kind = kind cfg, m_date = d,
                   m_input_key = s3_url (in_bucket cfg) (in_key_of cfg d),
                   m_outputs = map (s3_url (out_bucket cfg)) keys,
                   m_output_count = card {v. Some v \<in> set (col_cells c)},
                   m_generated_at = strftime_utc (gmtime e d)\<rparr>)
    \<and> (valid_tm (gmtime e d) \<longrightarrow> is_utc_timestamp (strftime_utc (gmtime e d))))"
proof -
  assume "process_date e cfg d w = (Inr True, w')"
  then obtain df c tasks where u:
    "map_of (store w) (in_bucket cfg, in_key_of cfg d) = Some (ParquetObj df)"
    "filter (\<lambda>(name, c). name = ''Item_ID'') (df_columns df) = [(''Item_ID'', c)]"
    "tasks = as_completed (completion e d)
       (map (\<lambda>v. (df_select (map (\<lambda>k. k = Some v) (col_cells c)) df, out_bucket cfg,
                   out_key_of cfg v d)) (group_keys c))"
    "\<forall>t \<in> set tasks. \<not> task_fails e t"
    "store w' = AList.update (out_bucket cfg, marker_key_of cfg d)
                (JsonObj \<lparr>m_kind = kind cfg, m_date = d,
                   m_input_key = s3_url (in_bucket cfg) (in_key_of cfg d),
                   m_outputs = map (s3_url (out_bucket cfg)) (map task_key tasks),
                   m_output_count = length tasks,
                   m_generated_at = strftime_utc (gmtime e d)\<rparr>)
                (fold (task_store e) tasks (store w))"
    "trace w' = trace w @ GetObject (in_bucket cfg) (in_key_of cfg d)
        # map (PutObject (out_bucket cfg)) (map task_key tasks)
        @ [PutObject (out_bucket cfg) (marker_key_of cfg d)]"
    by (rule unit_success)
  define sub where "sub = map (\<lambda>v. (df_select (map (\<lambda>k. k = Some v) (col_cells c)) df,
                   out_bucket cfg, out_key_of cfg v d)) (group_keys c)"
  let ?keys = "map task_key tasks"
  have tasks: "tasks = as_completed (completion e d) sub" unfolding sub_def by (rule u(3))
  have set_tasks: "set tasks = set sub" unfolding tasks by (rule set_as_completed)
  have sub_keys: "map task_key sub = map (\<lambda>v. out_key_of cfg v d) (group_keys c)"
    by (simp add: sub_def task_key_def comp_def)
  have m: "mset ?keys = mset (map (\<lambda>v. out_key_of cfg v d) (group_keys c))"
  proof -
    have "mset tasks = mset sub" unfolding tasks by (rule mset_as_completed)
    then have "image_mset task_key (mset tasks) = image_mset task_key (mset sub)"
      by (rule arg_cong)
    then have "mset (map task_key tasks) = mset (map task_key sub)"
      by (simp only: mset_map)
    then show ?thesis by (simp only: sub_keys)
  qed
  have dk: "distinct ?keys"
    using distinct_out_keys [of cfg d c] mset_eq_imp_distinct_iff [OF m] by (rule iffD2 [rotated])
  have bucket: "\<And>t. t \<in> set tasks \<Longrightarrow> fst (snd t) = out_bucket cfg"
    unfolding set_tasks sub_def by auto
  have new: "new_ops w w' = GetObject (in_bucket cfg) (in_key_of cfg d)
         # map (PutObject (out_bucket cfg)) ?keys
         @ [PutObject (out_bucket cfg) (marker_key_of cfg d)]"
    by (simp add: new_ops_def u(6))
  have set_keys: "set ?keys = set (map (\<lambda>v. out_key_of cfg v d) (group_keys c))"
    using m by (rule mset_eq_setD)
  have key_form: "\<And>k. k \<in> set ?keys \<Longrightarrow> \<exists>v. k = out_key_of cfg v d"
    unfolding set_keys by auto
  have nm: "PutObject (out_bucket cfg) (marker_key_of cfg d)
         \<notin> set (map (PutObject (out_bucket cfg)) ?keys)"
  proof
    assume "PutObject (out_bucket cfg) (marker_key_of cfg d)
         \<in> set (map (PutObject (out_bucket cfg)) ?keys)"
    then have "marker_key_of cfg d \<in> set ?keys" by auto
    then obtain v where "marker_key_of cfg d = out_key_of cfg v d" using key_form by blast
    then show False using out_key_neq_marker_key [of cfg v d cfg d] by simp
  qed
  have nf: "\<forall>k \<in> set ?keys. \<not> put_fails e (out_bucket cfg) k"
  proof
    fix k assume "k \<in> set ?keys"
    then obtain t where t: "t \<in> set tasks" "k = task_key t" by auto
    from u(4) t(1) have "\<not> task_fails e t" by blast
    then have "\<not> put_fails e (fst (snd t)) (task_key t)" unfolding task_fails_conv .
    then show "\<not> put_fails e (out_bucket cfg) k" by (simp add: bucket [OF t(1)] t(2))
  qed
  have dp: "distinct (map (\<lambda>t. (fst (snd t), task_key t)) tasks)"
    using dk by (rule distinct_pair_map)
  have written: "\<forall>v \<in> set (group_keys c).
          map_of (store w') (out_bucket cfg, out_key_of cfg v d)
            = Some (df_to_parquet_bytes (df_select (map (\<lambda>k. k = Some v) (col_cells c)) df))"
  proof
    fix v assume v: "v \<in> set (group_keys c)"
    let ?t = "(df_select (map (\<lambda>k. k = Some v) (col_cells c)) df, out_bucket cfg,
               out_key_of cfg v d)"
    have tin: "?t \<in> set tasks" unfolding set_tasks sub_def using v by simp
    have tk: "fst (snd ?t) = out_bucket cfg" "task_key ?t = out_key_of cfg v d" "fst ?t
        = df_select (map (\<lambda>k. k = Some v) (col_cells c)) df"
      by (simp_all add: task_key_def)
    have "\<not> task_fails e ?t" using u(4) tin by blast
    from map_of_fold_written [OF dp tin this, of "store w"]
    have "map_of (fold (task_store e) tasks (store w)) (out_bucket cfg, out_key_of cfg v d)
        = Some (df_to_parquet_bytes (df_select (map (\<lambda>k. k = Some v) (col_cells c)) df))"
      unfolding tk .
    moreover have "(out_bucket cfg, out_key_of cfg v d) \<noteq> (out_bucket cfg, marker_key_of cfg d)"
      using out_key_neq_marker_key [of cfg v d cfg d] by simp
    ultimately show "map_of (store w') (out_bucket cfg, out_key_of cfg v d)
            = Some (df_to_parquet_bytes (df_select (map (\<lambda>k. k = Some v) (col_cells c)) df))"
      unfolding u(5) by (simp add: update_conv')
  qed
  have len: "length tasks = card {v. Some v \<in> set (col_cells c)}"
  proof -
    have "length tasks = size (mset ?keys)" by simp
    also have "\<dots> = length (group_keys c)" unfolding m by simp
    finally show ?thesis by (simp only: count_distinct_values)
  qed
  have marker: "map_of (store w') (out_bucket cfg, marker_key_of cfg d)
         = Some (JsonObj \<lparr>m_kind = kind cfg, m_date = d,
                   m_input_key = s3_url (in_bucket cfg) (in_key_of cfg d),
                   m_outputs = map (s3_url (out_bucket cfg)) ?keys,
                   m_output_count = card {v. Some v \<in> set (col_cells c)},
                   m_generated_at = strftime_utc (gmtime e d)\<rparr>)"
    unfolding u(5) by (simp add: update_conv' len)
  have ts: "valid_tm (gmtime e d) \<longrightarrow> is_utc_timestamp (strftime_utc (gmtime e d))"
    by (rule impI) (rule strftime_utc_shape)
  show "\<exists>df c keys.
      map_of (store w) (in_bucket cfg, in_key_of cfg d) = Some (ParquetObj df)
    \<and> filter (\<lambda>(name, c). name = ''Item_ID'') (df_columns df) = [(''Item_ID'', c)]
    \<and> mset keys = mset (map (\<lambda>v. out_key_of cfg v d) (group_keys c))
    \<and> new_ops w w' = GetObject (in_bucket cfg) (in_key_of cfg d)
         # map (PutObject (out_bucket cfg)) keys
         @ [PutObject (out_bucket cfg) (marker_key_of cfg d)]
    \<and> PutObject (out_bucket cfg) (marker_key_of cfg d)
         \<notin> set (map (PutObject (out_bucket cfg)) keys)
    \<and> (\<forall>k \<in> set keys. \<not> put_fails e (out_bucket cfg) k)
    \<and> (\<forall>v \<in> set (group_keys c).
          map_of (store w') (out_bucket cfg, out_key_of cfg v d)
            = Some (df_to_parquet_bytes (df_select (map (\<lambda>k. k = Some v) (col_cells c)) df)))
    \<and> map_of (store w') (out_bucket cfg, marker_key_of cfg d)
         = Some (JsonObj \<lparr>m_kind = kind cfg, m_date = d,
                   m_input_key = s3_url (in_bucket cfg) (in_key_of cfg d),
                   m_outputs = map (s3_url (out_bucket cfg)) keys,
                   m_output_count = card {v. Some v \<in> set (col_cells c)},
                   m_generated_at = strftime_utc (gmtime e d)\<rparr>)
    \<and> (valid_tm (gmtime e d) \<longrightarrow> is_utc_timestamp (strftime_utc (gmtime e d)))"
    by (intro exI [of _ df] exI [of _ c] exI [of _ "map task_key tasks"] conjI
        u(1) u(2) m new nm nf written marker ts)
qed




section \<open>Rows without a key value\<close>

lemma groupby_single:
  "filter (\<lambda>(name, c). name = by) (df_columns df) = [(by, c)] \<Longrightarrow>
   groupby df by
     = Inr (map (\<lambda>v. (v, df_select (map (\<lambda>k. k = Some v) (col_cells c)) df)) (group_keys c))"
  by (simp add: groupby_def)

lemma has_column:
  assumes "filter (\<lambda>(name, c). name = x) cols = [(x, c)]"
  shows "x \<in> set (map fst cols)"
proof -
  have "(x, c) \<in> set (filter (\<lambda>(name, c). name = x) cols)" unfolding assms by simp
  then have "(x, c) \<in> set cols" by simp
  then show ?thesis by (metis fst_conv image_eqI list.set_map)
qed

lemma only_column:
  assumes "filter (\<lambda>(name, c). name = x) cols = [(x, c)]" "(x, c') \<in> set cols"
  shows "c' = c"
proof -
  from assms(2) have "(x, c') \<in> set (filter (\<lambda>(name, c). name = x) cols)" by simp
  then show ?thesis unfolding assms(1) by simp
qed

lemma select_map_commute: "select keep (map f xs) = map f (select keep xs)"
proof -
  have "filter snd (zip (map f xs) keep) = map (\<lambda>(x, b). (f x, b)) (filter snd (zip xs keep))"
  proof (induction xs arbitrary: keep)
    case Nil
    then show ?case by simp
  next
    case (Cons x xs)
    then show ?case by (cases keep) auto
  qed
  then show ?thesis by (simp add: select_def comp_def case_prod_unfold)
qed

lemma col_cells_col_select: "col_cells (col_select keep c) = select keep (col_cells c)"
  by (cases c) (simp_all add: select_map_commute)

lemma select_self: "select (map P ks) ks = filter P ks"
  by (induction ks) (simp_all add: select_def)

lemma partition_key_column:
  assumes "filter (\<lambda>(name, c). name = ''Item_ID'') (df_columns df) = [(''Item_ID'', c)]"
    and "(''Item_ID'', c') \<in> set (df_columns (df_select (map (\<lambda>k. k = Some v) (col_cells c)) df))"
  shows "set (col_cells c') \<subseteq> {Some v}"
proof -
  from assms(2) obtain c0 where c0: "(''Item_ID'', c0) \<in> set (df_columns df)"
    "c' = col_select (map (\<lambda>k. k = Some v) (col_cells c)) c0"
    by (auto simp: df_select_def)
  from only_column [OF assms(1) c0(1)] have "c0 = c" .
  then have "col_cells c' = filter (\<lambda>k. k = Some v) (col_cells c)"
    by (simp add: c0(2) col_cells_col_select select_self)
  then show ?thesis by auto
qed

lemma groupby_labels_mset:
  "mset (concat (map (\<lambda>v. df_index (df_select (map (\<lambda>k. k = Some v) (col_cells c)) df))
                     (group_keys c)))
   = mset (select (map (\<lambda>k. k \<noteq> None) (col_cells c)) (df_index df))"
proof -
  have e: "map (\<lambda>v. df_index (df_select (map (\<lambda>k. k = Some v) (col_cells c)) df)) (group_keys c)
      = map (\<lambda>v. map fst (filter (\<lambda>(x, k). k = Some v) (zip (df_index df) (col_cells c))))
          (group_keys c)"
    by (simp add: df_index_df_select select_map)
  show ?thesis
    unfolding e select_map
    using mset_groups [OF distinct_group_keys [of c], of "zip (df_index df) (col_cells c)"]
      filter_non_null_cong [OF set_group_keys [of c], of "df_index df"]
    by simp
qed

lemma process_date_marks:
  assumes "\<not> get_fails e (in_bucket cfg) (in_key_of cfg d)"
    and "map_of (store w) (in_bucket cfg, in_key_of cfg d) = Some (ParquetObj df)"
    and "\<not> df_empty df"
    and "filter (\<lambda>(name, c). name = ''Item_ID'') (df_columns df) = [(''Item_ID'', c)]"
    and "0 < max_workers cfg"
    and "\<forall>k. \<not> put_fails e (out_bucket cfg) k"
  shows "\<exists>w'. process_date e cfg d w = (Inr True, w')"
proof -
  let ?w1 = "w\<lparr>trace := trace w @ [GetObject (in_bucket cfg) (in_key_of cfg d)]\<rparr>"
  let ?groups = "map (\<lambda>v. (v, df_select (map (\<lambda>k. k = Some v) (col_cells c)) df)) (group_keys c)"
  let ?tasks = "as_completed (completion e d) (submit_all cfg d ?groups)"
  have g: "groupby df ''Item_ID'' = Inr ?groups" using assms(4) by (rule groupby_single)
  have pd: "process_date e cfg d w = split_and_mark e cfg d df ?w1"
    using assms(1,2,3) has_column [OF assms(4)] by (rule process_date_split)
  have "\<forall>t \<in> set ?tasks. \<not> task_fails e t"
  proof
    fix t assume "t \<in> set ?tasks"
    then have "t \<in> set (submit_all cfg d ?groups)" by (simp only: set_as_completed)
    then have "fst (snd t) = out_bucket cfg" using submit_all_task by blast
    then show "\<not> task_fails e t" using assms(6) by (simp add: task_fails_conv)
  qed
  then have f: "find (task_fails e) ?tasks = None" by (rule find_None)
  have "fst (split_and_mark e cfg d df ?w1) = Inr True"
    using assms(5,6) by (simp add: split_and_mark_eq g f write_marker_eq)
  then show ?thesis unfolding pd by (metis prod.collapse)
qed

text \<open>
  Claim C9. For an input table with rows whose \<open>Item_ID\<close> is missing (and no failing call),
  the unit is marked all the same; the groups are those of the non-missing key values, so no
  partition has a row with a missing key, the row labels of the partitions are those of the
  rows with a key, the objects written are these partitions, and the marker lists and counts
  one output for each distinct non-missing key value.
\<close>

theorem null_keyed_rows_are_dropped_and_unit_marked:
  "\<not> get_fails e (in_bucket cfg) (in_key_of cfg d)
   \<and> map_of (store w) (in_bucket cfg, in_key_of cfg d) = Some (ParquetObj df)
   \<and> \<not> df_empty df
   \<and> filter (\<lambda>(name, c). name = ''Item_ID'') (df_columns df) = [(''Item_ID'', c)]
   \<and> None \<in> set (col_cells c)
   \<and> 0 < max_workers cfg \<and> (\<forall>k. \<not> put_fails e (out_bucket cfg) k)
   \<longrightarrow> (\<exists>w' keys.
        process_date e cfg d w = (Inr True, w')
      \<and> groupby df ''Item_ID''
          = Inr (map (\<lambda>v. (v, df_select (map (\<lambda>k. k = Some v) (col_cells c)) df)) (group_keys c))
      \<and> (\<forall>v \<in> set (group_keys c). \<forall>c'.
            (''Item_ID'', c') \<in> set (df_columns (df_select (map (\<lambda>k. k = Some v) (col_cells c)) df))
            \<longrightarrow> None \<notin> set (col_cells c'))
      \<and> mset (concat (map (\<lambda>v. df_index (df_select (map (\<lambda>k. k = Some v) (col_cells c)) df))
                            (group_keys c)))
          = mset (select (map (\<lambda>k. k \<noteq> None) (col_cells c)) (df_index df))
      \<and> mset keys = mset (map (\<lambda>v. out_key_of cfg v d) (group_keys c))
      \<and> new_ops w w' = GetObject (in_bucket cfg) (in_key_of cfg d)
           # map (PutObject (out_bucket cfg)) keys
           @ [PutObject (out_bucket cfg) (marker_key_of cfg d)]
      \<and> (\<forall>v \<in> set (group_keys c).
            map_of (store w') (out_bucket cfg, out_key_of cfg v d)
              = Some (df_to_parquet_bytes (df_select (map (\<lambda>k. k = Some v) (col_cells c)) df)))
      \<and> map_of (store w') (out_bucket cfg, marker_key_of cfg d)
           = Some (JsonObj \<lparr>m_kind = kind cfg, m_date = d,
                     m_input_key = s3_url (in_bucket cfg) (in_key_of cfg d),
                     m_outputs = map (s3_url (out_bucket cfg)) keys,
                     m_output_count = card {v. Some v \<in> set (col_cells c)},
                     m_generated_at = strftime_utc (gmtime e d)\<rparr>))"
proof (rule impI)
  assume a: "\<not> get_fails e (in_bucket cfg) (in_key_of cfg d)
   \<and> map_of (store w) (in_bucket cfg, in_key_of cfg d) = Some (ParquetObj df)
   \<and> \<not> df_empty df
   \<and> filter (\<lambda>(name, c). name = ''Item_ID'') (df_columns df) = [(''Item_ID'', c)]
   \<and> None \<in> set (col_cells c)
   \<and> 0 < max_workers cfg \<and> (\<forall>k. \<not> put_fails e (out_bucket cfg) k)"
  then have h: "\<not> get_fails e (in_bucket cfg) (in_key_of cfg d)"
    "map_of (store w) (in_bucket cfg, in_key_of cfg d) = Some (ParquetObj df)"
    "\<not> df_empty df"
    "filter (\<lambda>(name, c). name = ''Item_ID'') (df_columns df) = [(''Item_ID'', c)]"
    "0 < max_workers cfg" "\<forall>k. \<not> put_fails e (out_bucket cfg) k"
    by simp_all
  from process_date_marks [OF h] obtain w' where w': "process_date e cfg d w = (Inr True, w')" ..
  from marked_unit_facts [OF w'] obtain df' c' keys where f:
    "map_of (store w) (in_bucket cfg, in_key_of cfg d) = Some (ParquetObj df')"
    "filter (\<lambda>(name, c). name = ''Item_ID'') (df_columns df') = [(''Item_ID'', c')]"
    "mset keys = mset (map (\<lambda>v. out_key_of cfg v d) (group_keys c'))"
    "new_ops w w' = GetObject (in_bucket cfg) (in_key_of cfg d)
         # map (PutObject (out_bucket cfg)) keys
         @ [PutObject (out_bucket cfg) (marker_key_of cfg d)]"
    "\<forall>v \<in> set (group_keys c').
          map_of (store w') (out_bucket cfg, out_key_of cfg v d)
            = Some (df_to_parquet_bytes (df_select (map (\<lambda>k. k = Some v) (col_cells c')) df'))"
    "map_of (store w') (out_bucket cfg, marker_key_of cfg d)
         = Some (JsonObj \<lparr>m_kind = kind cfg, m_date = d,
                   m_input_key = s3_url (in_bucket cfg) (in_key_of cfg d),
                   m_outputs = map (s3_url (out_bucket cfg)) keys,
                   m_output_count = card {v. Some v \<in> set (col_cells c')},
                   m_generated_at = strftime_utc (gmtime e d)\<rparr>)"
    by blast
  have df': "df' = df" using f(1) h(2) by simp
  have c': "c' = c" using f(2) h(4) unfolding df' by simp
  note g = f(3-6) [unfolded df' c']
  have gb: "groupby df ''Item_ID''
      = Inr (map (\<lambda>v. (v, df_select (map (\<lambda>k. k = Some v) (col_cells c)) df)) (group_keys c))"
    using h(4) by (rule groupby_single)
  have nn: "\<forall>v \<in> set (group_keys c). \<forall>c'.
            (''Item_ID'', c') \<in> set (df_columns (df_select (map (\<lambda>k. k = Some v) (col_cells c)) df))
            \<longrightarrow> None \<notin> set (col_cells c')"
  proof (intro ballI allI impI)
    fix v c''
    assume "(''Item_ID'', c'') \<in> set (df_columns (df_select (map (\<lambda>k. k = Some v) (col_cells c)) df))"
    from partition_key_column [OF h(4) this] show "None \<notin> set (col_cells c'')" by auto
  qed
  show "\<exists>w' keys.
        process_date e cfg d w = (Inr True, w')
      \<and> groupby df ''Item_ID''
          = Inr (map (\<lambda>v. (v, df_select (map (\<lambda>k. k = Some v) (col_cells c)) df)) (group_keys c))
      \<and> (\<forall>v \<in> set (group_keys c). \<forall>c'.
            (''Item_ID'', c') \<in> set (df_columns (df_select (map (\<lambda>k. k = Some v) (col_cells c)) df))
            \<longrightarrow> None \<notin> set (col_cells c'))
      \<and> mset (concat (map (\<lambda>v. df_index (df_select (map (\<lambda>k. k = Some v) (col_cells c)) df))
                            (group_keys c)))
          = mset (select (map (\<lambda>k. k \<noteq> None) (col_cells c)) (df_index df))
      \<and> mset keys = mset (map (\<lambda>v. out_key_of cfg v d) (group_keys c))
      \<and> new_ops w w' = GetObject (in_bucket cfg) (in_key_of cfg d)
           # map (PutObject (out_bucket cfg)) keys
           @ [PutObject (out_bucket cfg) (marker_key_of cfg d)]
      \<and> (\<forall>v \<in> set (group_keys c).
            map_of (store w') (out_bucket cfg, out_key_of cfg v d)
              = Some (df_to_parquet_bytes (df_select (map (\<lambda>k. k = Some v) (col_cells c)) df)))
      \<and> map_of (store w') (out_bucket cfg, marker_key_of cfg d)
           = Some (JsonObj \<lparr>m_kind = kind cfg, m_date = d,
                     m_input_key = s3_url (in_bucket cfg) (in_key_of cfg d),
                     m_outputs = map (s3_url (out_bucket cfg)) keys,
                     m_output_count = card {v. Some v \<in> set (col_cells c)},
                     m_generated_at = strftime_utc (gmtime e d)\<rparr>)"
    by (intro exI [of _ w'] exI [of _ keys] conjI w' gb nn groupby_labels_mset g)
qed

theorem null_keyed_rows_are_dropped_and_unit_marked_witness:
  "None \<in> set (col_cells (StrCol [Some ''A'', None]))
   \<and> (\<exists>w' keys.
        process_date quiet_env ex_cfg ''20250101'' null_key_world = (Inr True, w')
      \<and> mset keys = mset (map (\<lambda>v. out_key_of ex_cfg v ''20250101'')
                            (group_keys (StrCol [Some ''A'', None])))
      \<and> new_ops null_key_world w'
          = GetObject (in_bucket ex_cfg) (in_key_of ex_cfg ''20250101'')
            # map (PutObject (out_bucket ex_cfg)) keys
            @ [PutObject (out_bucket ex_cfg) (marker_key_of ex_cfg ''20250101'')])"
proof -
  have h: "\<not> get_fails quiet_env (in_bucket ex_cfg) (in_key_of ex_cfg ''20250101'')
   \<and> map_of (store null_key_world) (in_bucket ex_cfg, in_key_of ex_cfg ''20250101'')
       = Some (ParquetObj null_key_df)
   \<and> \<not> df_empty null_key_df
   \<and> filter (\<lambda>(name, c). name = ''Item_ID'') (df_columns null_key_df)
       = [(''Item_ID'', StrCol [Some ''A'', None])]
   \<and> None \<in> set (col_cells (StrCol [Some ''A'', None]))
   \<and> 0 < max_workers ex_cfg \<and> (\<forall>k. \<not> put_fails quiet_env (out_bucket ex_cfg) k)"
    by (simp add: quiet_env_def null_key_world_def ex_cfg_def in_key_of_def null_key_df_def
        df_empty_def)
  from null_keyed_rows_are_dropped_and_unit_marked
    [of quiet_env ex_cfg "''20250101''" null_key_world null_key_df "StrCol [Some ''A'', None]"] h
  show ?thesis by blast
qed

section \<open>What any unit may do to the world\<close>

lemma split_and_mark_cases:
  obtains (unchanged) "snd (split_and_mark e cfg d df w) = w"
  | (tasks_only) groups where
      "snd (split_and_mark e cfg d df w)
         = w\<lparr>store := fold (task_store e) (as_completed (completion e d) (submit_all cfg d groups))
                         (store w),
              trace := trace w
                 @ map task_op (as_completed (completion e d) (submit_all cfg d groups))\<rparr>"
  | (marker_failed) groups where
      "snd (split_and_mark e cfg d df w)
         = w\<lparr>store := fold (task_store e) (as_completed (completion e d) (submit_all cfg d groups))
                         (store w),
              trace := trace w
                 @ map task_op (as_completed (completion e d) (submit_all cfg d groups))
                 @ [PutObject (out_bucket cfg) (marker_key_of cfg d)]\<rparr>"
  | (marked) groups doc where
      "snd (split_and_mark e cfg d df w)
         = w\<lparr>store := AList.update (out_bucket cfg, marker_key_of cfg d) (JsonObj doc)
                  (fold (task_store e) (as_completed (completion e d) (submit_all cfg d groups))
                         (store w)),
              trace := trace w
                 @ map task_op (as_completed (completion e d) (submit_all cfg d groups))
                 @ [PutObject (out_bucket cfg) (marker_key_of cfg d)]\<rparr>"
proof (cases "max_workers cfg \<le> 0")
  case True
  then have "snd (split_and_mark e cfg d df w) = w" by (simp add: split_and_mark_eq)
  then show thesis by (rule unchanged)
next
  case mw: False
  show thesis
  proof (cases "groupby df ''Item_ID''")
    case (Inl err)
    with mw have "snd (split_and_mark e cfg d df w) = w" by (simp add: split_and_mark_eq)
    then show thesis by (rule unchanged)
  next
    case (Inr groups)
    define T where "T = as_completed (completion e d) (submit_all cfg d groups)"
    show thesis
    proof (cases "find (task_fails e) T")
      case (Some t)
      with mw Inr have "snd (split_and_mark e cfg d df w)
         = w\<lparr>store := fold (task_store e) T (store w), trace := trace w @ map task_op T\<rparr>"
        by (simp add: split_and_mark_eq T_def)
      then show thesis unfolding T_def by (rule tasks_only)
    next
      case None
      show thesis
      proof (cases "put_fails e (out_bucket cfg) (marker_key_of cfg d)")
        case True
        with mw Inr None have "snd (split_and_mark e cfg d df w)
         = w\<lparr>store := fold (task_store e) T (store w),
              trace := trace w @ map task_op T
                 @ [PutObject (out_bucket cfg) (marker_key_of cfg d)]\<rparr>"
          by (simp add: split_and_mark_eq write_marker_eq T_def)
        then show thesis unfolding T_def by (rule marker_failed)
      next
        case False
        with mw Inr None have "snd (split_and_mark e cfg d df w)
         = w\<lparr>store := AList.update (out_bucket cfg, marker_key_of cfg d)
                  (JsonObj \<lparr>m_kind = kind cfg, m_date = d,
                     m_input_key = s3_url (in_bucket cfg) (in_key_of cfg d),
                     m_outputs = map (s3_url (out_bucket cfg)) (map task_key T),
                     m_output_count = length T,
                     m_generated_at = strftime_utc (gmtime e d)\<rparr>)
                  (fold (task_store e) T (store w)),
              trace := trace w @ map task_op T
                 @ [PutObject (out_bucket cfg) (marker_key_of cfg d)]\<rparr>"
          by (simp add: split_and_mark_eq write_marker_eq T_def)
        then show thesis unfolding T_def by (rule marked)
      qed
    qed
  qed
qed

lemma process_date_cases:
  obtains (read_only)
      "snd (process_date e cfg d w)
         = w\<lparr>trace := trace w @ [GetObject (in_bucket cfg) (in_key_of cfg d)]\<rparr>"
  | (split) df where
      "snd (process_date e cfg d w)
         = snd (split_and_mark e cfg d df
                  (w\<lparr>trace := trace w @ [GetObject (in_bucket cfg) (in_key_of cfg d)]\<rparr>))"
proof (cases "get_fails e (in_bucket cfg) (in_key_of cfg d)")
  case True
  then show thesis using read_only by (simp add: process_date_eq)
next
  case gf: False
  show thesis
  proof (cases "map_of (store w) (in_bucket cfg, in_key_of cfg d)")
    case None
    with gf show thesis using read_only by (simp add: process_date_eq)
  next
    case (Some obj)
    show thesis
    proof (cases obj)
      case (JsonObj doc)
      with gf Some show thesis using read_only by (simp add: process_date_eq)
    next
      case (ParquetObj df)
      show thesis
      proof (cases "df_empty df \<or> ''Item_ID'' \<notin> set (map fst (df_columns df))")
        case True
        with gf Some ParquetObj show thesis using read_only by (auto simp: process_date_eq)
      next
        case False
        with gf Some ParquetObj show thesis using split [of df] by (simp add: process_date_eq)
      qed
    qed
  qed
qed

lemma task_ops_conform:
  "\<forall>op \<in> set (map task_op (as_completed picks (submit_all cfg d groups))). unit_op cfg d op"
proof
  fix op assume "op \<in> set (map task_op (as_completed picks (submit_all cfg d groups)))"
  then obtain t where t: "t \<in> set (as_completed picks (submit_all cfg d groups))" "op = task_op t"
    by auto
  from t(1) have m: "t \<in> set (submit_all cfg d groups)" by (simp only: set_as_completed)
  from submit_all_task [OF m] obtain v where "task_key t = out_key_of cfg v d" by blast
  with task_op_submit_all [OF m] t(2) show "unit_op cfg d op"
    by (auto simp: unit_op_def out_key_of_def)
qed

lemma split_and_mark_trace:
  "\<exists>ops. trace (snd (split_and_mark e cfg d df w)) = trace w @ ops
         \<and> (\<forall>op \<in> set ops. unit_op cfg d op)"
proof (cases rule: split_and_mark_cases [of e cfg d df w])
  case unchanged
  then show ?thesis by simp
next
  case (tasks_only groups)
  then show ?thesis using task_ops_conform [of "completion e d" cfg d groups] by simp
next
  case (marker_failed groups)
  have "unit_op cfg d (PutObject (out_bucket cfg) (marker_key_of cfg d))"
    by (simp add: unit_op_def marker_key_of_def)
  with marker_failed task_ops_conform [of "completion e d" cfg d groups]
  show ?thesis by (intro exI [of _ "map task_op (as_completed (completion e d) (submit_all cfg d groups))
      @ [PutObject (out_bucket cfg) (marker_key_of cfg d)]"]) auto
next
  case (marked groups doc)
  have "unit_op cfg d (PutObject (out_bucket cfg) (marker_key_of cfg d))"
    by (simp add: unit_op_def marker_key_of_def)
  with marked task_ops_conform [of "completion e d" cfg d groups]
  show ?thesis by (intro exI [of _ "map task_op (as_completed (completion e d) (submit_all cfg d groups))
      @ [PutObject (out_bucket cfg) (marker_key_of cfg d)]"]) auto
qed

lemma process_date_trace:
  "\<exists>ops. trace (snd (process_date e cfg d w)) = trace w @ ops
         \<and> (\<forall>op \<in> set ops. unit_op cfg d op)"
proof (cases rule: process_date_cases [of e cfg d w])
  case read_only
  have "unit_op cfg d (GetObject (in_bucket cfg) (in_key_of cfg d))"
    by (simp add: unit_op_def in_key_of_def)
  with read_only show ?thesis by simp
next
  case (split df)
  let ?w1 = "w\<lparr>trace := trace w @ [GetObject (in_bucket cfg) (in_key_of cfg d)]\<rparr>"
  from split_and_mark_trace [of e cfg d df ?w1] obtain ops where
    ops: "trace (snd (split_and_mark e cfg d df ?w1)) = trace ?w1 @ ops"
      "\<forall>op \<in> set ops. unit_op cfg d op" by blast
  have g: "unit_op cfg d (GetObject (in_bucket cfg) (in_key_of cfg d))"
    by (simp add: unit_op_def in_key_of_def)
  have "trace (snd (process_date e cfg d w))
      = trace w @ (GetObject (in_bucket cfg) (in_key_of cfg d) # ops)"
    using split ops(1) by simp
  moreover have "\<forall>op \<in> set (GetObject (in_bucket cfg) (in_key_of cfg d) # ops). unit_op cfg d op"
    using g ops(2) by simp
  ultimately show ?thesis by blast
qed

lemma fold_task_store_keys:
  assumes "\<forall>t \<in> set ts. unit_key cfg d (fst (snd t), task_key t)"
  shows "map_of (fold (task_store e) ts st) bk = map_of st bk \<or> unit_key cfg d bk"
proof (cases "unit_key cfg d bk")
  case True
  then show ?thesis by simp
next
  case False
  with assms have "\<forall>t \<in> set ts. (fst (snd t), task_key t) \<noteq> bk" by auto
  then show ?thesis using map_of_fold_unchanged by blast
qed

lemma submitted_keys:
  "\<forall>t \<in> set (as_completed picks (submit_all cfg d groups)). unit_key cfg d (fst (snd t), task_key t)"
proof
  fix t assume "t \<in> set (as_completed picks (submit_all cfg d groups))"
  then have m: "t \<in> set (submit_all cfg d groups)" by (simp only: set_as_completed)
  from submit_all_task [OF m] show "unit_key cfg d (fst (snd t), task_key t)"
    by (auto simp: unit_key_def)
qed

lemma fold_submitted:
  "(map_of (fold (task_store e) (as_completed picks (submit_all cfg d groups)) st) bk = map_of st bk
      \<or> unit_key cfg d bk)
   \<and> (map_of st bk \<noteq> None \<longrightarrow>
        map_of (fold (task_store e) (as_completed picks (submit_all cfg d groups)) st) bk \<noteq> None)"
proof
  show "map_of (fold (task_store e) (as_completed picks (submit_all cfg d groups)) st) bk = map_of st bk
      \<or> unit_key cfg d bk"
    by (rule fold_task_store_keys) (rule submitted_keys)
  show "map_of st bk \<noteq> None \<longrightarrow>
        map_of (fold (task_store e) (as_completed picks (submit_all cfg d groups)) st) bk \<noteq> None"
    by (rule impI) (rule map_of_fold_keeps)
qed

lemma split_and_mark_store:
  "(map_of (store (snd (split_and_mark e cfg d df w))) bk = map_of (store w) bk \<or> unit_key cfg d bk)
   \<and> (map_of (store w) bk \<noteq> None \<longrightarrow> map_of (store (snd (split_and_mark e cfg d df w))) bk \<noteq> None)"
proof (cases rule: split_and_mark_cases [of e cfg d df w])
  case unchanged
  then show ?thesis by simp
next
  case (tasks_only groups)
  then show ?thesis
    using fold_submitted [of e "completion e d" cfg d groups "store w" bk] by simp
next
  case (marker_failed groups)
  then show ?thesis
    using fold_submitted [of e "completion e d" cfg d groups "store w" bk] by simp
next
  case (marked groups doc)
  then show ?thesis
    using fold_submitted [of e "completion e d" cfg d groups "store w" bk]
    by (auto simp: update_conv' unit_key_def)
qed

lemma process_date_store:
  "(map_of (store (snd (process_date e cfg d w))) bk = map_of (store w) bk \<or> unit_key cfg d bk)
   \<and> (map_of (store w) bk \<noteq> None \<longrightarrow> map_of (store (snd (process_date e cfg d w))) bk \<noteq> None)"
proof (cases rule: process_date_cases [of e cfg d w])
  case read_only
  then show ?thesis by simp
next
  case (split df)
  then show ?thesis
    using split_and_mark_store
      [of e cfg d df "w\<lparr>trace := trace w @ [GetObject (in_bucket cfg) (in_key_of cfg d)]\<rparr>" bk]
    by simp
qed

section \<open>What the loop may do to the world\<close>

lemma process_dates_step:
  "snd (process_dates e cfg (d # ds) n w) = snd (process_date e cfg d w)
   \<or> (\<exists>n'. snd (process_dates e cfg (d # ds) n w)
            = snd (process_dates e cfg ds n' (snd (process_date e cfg d w))))"
proof (cases "process_date e cfg d w")
  case (Pair r w1)
  then show ?thesis by (cases r) auto
qed

lemma process_dates_trace:
  "\<exists>ops. trace (snd (process_dates e cfg ds n w)) = trace w @ ops
         \<and> (\<forall>op \<in> set ops. \<exists>d \<in> set ds. unit_op cfg d op)"
proof (induction ds arbitrary: n w)
  case Nil
  then show ?case by simp
next
  case (Cons d ds)
  let ?w1 = "snd (process_date e cfg d w)"
  from process_date_trace [of e cfg d w] obtain ops1 where
    o1: "trace ?w1 = trace w @ ops1" "\<forall>op \<in> set ops1. unit_op cfg d op" by blast
  from process_dates_step [of e cfg d ds n w] show ?case
  proof
    assume "snd (process_dates e cfg (d # ds) n w) = ?w1"
    then have "trace (snd (process_dates e cfg (d # ds) n w)) = trace ?w1"
      by (rule arg_cong)
    then have "trace (snd (process_dates e cfg (d # ds) n w)) = trace w @ ops1"
      unfolding o1(1) .
    moreover have "\<forall>op \<in> set ops1. \<exists>d' \<in> set (d # ds). unit_op cfg d' op"
      using o1(2) by simp
    ultimately have "trace (snd (process_dates e cfg (d # ds) n w)) = trace w @ ops1
         \<and> (\<forall>op \<in> set ops1. \<exists>d' \<in> set (d # ds). unit_op cfg d' op)" ..
    then show ?thesis by blast
  next
    assume "\<exists>n'. snd (process_dates e cfg (d # ds) n w) = snd (process_dates e cfg ds n' ?w1)"
    then obtain n' where s: "snd (process_dates e cfg (d # ds) n w)
        = snd (process_dates e cfg ds n' ?w1)" ..
    from Cons.IH [of n' ?w1] obtain ops2 where
      o2: "trace (snd (process_dates e cfg ds n' ?w1)) = trace ?w1 @ ops2"
        "\<forall>op \<in> set ops2. \<exists>d \<in> set ds. unit_op cfg d op" by blast
    have "trace (snd (process_dates e cfg (d # ds) n w)) = trace w @ (ops1 @ ops2)"
      unfolding s o2(1) o1(1) by simp
    moreover have "\<forall>op \<in> set (ops1 @ ops2). \<exists>d' \<in> set (d # ds). unit_op cfg d' op"
      using o1(2) o2(2) by auto
    ultimately show ?thesis by blast
  qed
qed

lemma process_dates_store:
  "(map_of (store (snd (process_dates e cfg ds n w))) bk = map_of (store w) bk
      \<or> (\<exists>d \<in> set ds. unit_key cfg d bk))
   \<and> (map_of (store w) bk \<noteq> None \<longrightarrow> map_of (store (snd (process_dates e cfg ds n w))) bk \<noteq> None)"
proof (induction ds arbitrary: n w)
  case Nil
  then show ?case by simp
next
  case (Cons d ds)
  let ?w1 = "snd (process_date e cfg d w)"
  note u = process_date_store [of e cfg d w bk]
  from process_dates_step [of e cfg d ds n w] show ?case
  proof
    assume s0: "snd (process_dates e cfg (d # ds) n w) = ?w1"
    from u show ?thesis unfolding s0 by auto
  next
    assume "\<exists>n'. snd (process_dates e cfg (d # ds) n w) = snd (process_dates e cfg ds n' ?w1)"
    then obtain n' where s: "snd (process_dates e cfg (d # ds) n w)
        = snd (process_dates e cfg ds n' ?w1)" ..
    from Cons.IH [of n' ?w1] u show ?thesis unfolding s by auto
  qed
qed

section \<open>A run, step by step\<close>

lemma list_keys_with_suffix_eq:
  "list_keys_with_suffix e bucket pre suf w =
     (if list_fails e bucket pre
      then (Inl (ClientError (ListObjects bucket pre)), w\<lparr>trace := trace w @ [ListObjects bucket pre]\<rparr>)
      else (Inr (listed bucket pre suf (store w)), w\<lparr>trace := trace w @ [ListObjects bucket pre]\<rparr>))"
  by (simp add: list_keys_with_suffix_def listed_def log_op_def Let_def)

lemma normalize_buckets [simp]:
  "in_bucket (normalize cfg) = in_bucket cfg" "out_bucket (normalize cfg) = out_bucket cfg"
  "kind (normalize cfg) = kind cfg" "max_workers (normalize cfg) = max_workers cfg"
  by (simp_all add: normalize_def)

lemma process_kind_cases:
  obtains (list_failed)
      "process_kind e cfg0 w
         = (Inl (ClientError (ListObjects (in_bucket cfg0) (in_prefix (normalize cfg0)))),
            w\<lparr>trace := trace w @ [ListObjects (in_bucket cfg0) (in_prefix (normalize cfg0))]\<rparr>)"
  | (marker_list_failed)
      "process_kind e cfg0 w
         = (Inl (ClientError (ListObjects (out_bucket cfg0) (marker_prefix (normalize cfg0)))),
            w\<lparr>trace := trace w @ [ListObjects (in_bucket cfg0) (in_prefix (normalize cfg0)),
                                   ListObjects (out_bucket cfg0) (marker_prefix (normalize cfg0))]\<rparr>)"
  | (looped)
      "process_kind e cfg0 w
         = (case process_dates e (normalize cfg0)
                  (missing_dates_of
                     (listed (in_bucket cfg0) (in_prefix (normalize cfg0)) ''.parquet'' (store w))
                     (listed (out_bucket cfg0) (marker_prefix (normalize cfg0)) ''.json'' (store w)))
                  0
                  (w\<lparr>trace := trace w @ [ListObjects (in_bucket cfg0) (in_prefix (normalize cfg0)),
                        ListObjects (out_bucket cfg0) (marker_prefix (normalize cfg0))]\<rparr>) of
              (Inl err, w3) \<Rightarrow> (Inl err, w3)
            | (Inr processed, w3) \<Rightarrow>
                (Inr \<lparr>s_kind = kind cfg0,
                      s_input_files = card (extract_dates_from_keys
                        (listed (in_bucket cfg0) (in_prefix (normalize cfg0)) ''.parquet'' (store w))),
                      s_output_files = card (extract_dates_from_marker_keys
                        (listed (out_bucket cfg0) (marker_prefix (normalize cfg0)) ''.json'' (store w))),
                      s_missing_dates = missing_dates_of
                        (listed (in_bucket cfg0) (in_prefix (normalize cfg0)) ''.parquet'' (store w))
                        (listed (out_bucket cfg0) (marker_prefix (normalize cfg0)) ''.json'' (store w)),
                      s_processed_days = processed\<rparr>, w3))"
proof (cases "list_fails e (in_bucket cfg0) (in_prefix (normalize cfg0))")
  case True
  then show thesis using list_failed
    by (simp add: process_kind_def list_keys_with_suffix_eq Let_def)
next
  case l1: False
  show thesis
  proof (cases "list_fails e (out_bucket cfg0) (marker_prefix (normalize cfg0))")
    case True
    with l1 show thesis using marker_list_failed
      by (simp add: process_kind_def list_keys_with_suffix_eq Let_def)
  next
    case False
    with l1 have "process_kind e cfg0 w
         = (case process_dates e (normalize cfg0)
                  (missing_dates_of
                     (listed (in_bucket cfg0) (in_prefix (normalize cfg0)) ''.parquet'' (store w))
                     (listed (out_bucket cfg0) (marker_prefix (normalize cfg0)) ''.json'' (store w)))
                  0
                  (w\<lparr>trace := trace w @ [ListObjects (in_bucket cfg0) (in_prefix (normalize cfg0)),
                        ListObjects (out_bucket cfg0) (marker_prefix (normalize cfg0))]\<rparr>) of
              (Inl err, w3) \<Rightarrow> (Inl err, w3)
            | (Inr processed, w3) \<Rightarrow>
                (Inr \<lparr>s_kind = kind cfg0,
                      s_input_files = card (extract_dates_from_keys
                        (listed (in_bucket cfg0) (in_prefix (normalize cfg0)) ''.parquet'' (store w))),
                      s_output_files = card (extract_dates_from_marker_keys
                        (listed (out_bucket cfg0) (marker_prefix (normalize cfg0)) ''.json'' (store w))),
                      s_missing_dates = missing_dates_of
                        (listed (in_bucket cfg0) (in_prefix (normalize cfg0)) ''.parquet'' (store w))
                        (listed (out_bucket cfg0) (marker_prefix (normalize cfg0)) ''.json'' (store w)),
                      s_processed_days = processed\<rparr>, w3))"
      by (simp add: process_kind_def list_keys_with_suffix_eq Let_def split: prod.splits sum.splits)
    then show thesis by (rule looped)
  qed
qed

lemma snd_case_result:
  "snd (case x of (Inl err, w3) \<Rightarrow> (Inl err, w3) | (Inr p, w3) \<Rightarrow> (f p, w3)) = snd x"
  by (cases x; cases "fst x") auto

lemma process_kind_world:
  "snd (process_kind e cfg0 w)
     = w\<lparr>trace := trace w @ [ListObjects (in_bucket cfg0) (in_prefix (normalize cfg0))]\<rparr>
   \<or> snd (process_kind e cfg0 w)
     = w\<lparr>trace := trace w @ [ListObjects (in_bucket cfg0) (in_prefix (normalize cfg0)),
                            ListObjects (out_bucket cfg0) (marker_prefix (normalize cfg0))]\<rparr>
   \<or> snd (process_kind e cfg0 w)
     = snd (process_dates e (normalize cfg0)
             (missing_dates_of
                (listed (in_bucket cfg0) (in_prefix (normalize cfg0)) ''.parquet'' (store w))
                (listed (out_bucket cfg0) (marker_prefix (normalize cfg0)) ''.json'' (store w)))
             0
             (w\<lparr>trace := trace w @ [ListObjects (in_bucket cfg0) (in_prefix (normalize cfg0)),
                   ListObjects (out_bucket cfg0) (marker_prefix (normalize cfg0))]\<rparr>))"
proof (cases rule: process_kind_cases [of e cfg0 w])
  case list_failed
  then show ?thesis by simp
next
  case marker_list_failed
  then show ?thesis by simp
next
  case looped
  have "snd (process_kind e cfg0 w)
     = snd (process_dates e (normalize cfg0)
             (missing_dates_of
                (listed (in_bucket cfg0) (in_prefix (normalize cfg0)) ''.parquet'' (store w))
                (listed (out_bucket cfg0) (marker_prefix (normalize cfg0)) ''.json'' (store w)))
             0
             (w\<lparr>trace := trace w @ [ListObjects (in_bucket cfg0) (in_prefix (normalize cfg0)),
                   ListObjects (out_bucket cfg0) (marker_prefix (normalize cfg0))]\<rparr>))"
    unfolding looped by (rule snd_case_result)
  then show ?thesis by (intro disjI2)
qed

lemma process_kind_ops:
  "new_ops w (snd (process_kind e cfg0 w))
     = [ListObjects (in_bucket cfg0) (in_prefix (normalize cfg0))]
   \<or> (\<exists>ops. new_ops w (snd (process_kind e cfg0 w))
         = ListObjects (in_bucket cfg0) (in_prefix (normalize cfg0))
           # ListObjects (out_bucket cfg0) (marker_prefix (normalize cfg0)) # ops
       \<and> (\<forall>op \<in> set ops. \<exists>d. unit_op (normalize cfg0) d op))"
proof -
  let ?L1 = "ListObjects (in_bucket cfg0) (in_prefix (normalize cfg0))"
  let ?L2 = "ListObjects (out_bucket cfg0) (marker_prefix (normalize cfg0))"
  let ?wb = "w\<lparr>trace := trace w @ [?L1, ?L2]\<rparr>"
  let ?ds = "missing_dates_of
                (listed (in_bucket cfg0) (in_prefix (normalize cfg0)) ''.parquet'' (store w))
                (listed (out_bucket cfg0) (marker_prefix (normalize cfg0)) ''.json'' (store w))"
  from process_kind_world [of e cfg0 w]
  consider (a) "snd (process_kind e cfg0 w) = w\<lparr>trace := trace w @ [?L1]\<rparr>"
    | (b) "snd (process_kind e cfg0 w) = ?wb"
    | (c) "snd (process_kind e cfg0 w) = snd (process_dates e (normalize cfg0) ?ds 0 ?wb)"
    by blast
  then show ?thesis
  proof cases
    case a
    then show ?thesis by (simp add: new_ops_def)
  next
    case b
    then have "new_ops w (snd (process_kind e cfg0 w)) = ?L1 # ?L2 # []" by (simp add: new_ops_def)
    then show ?thesis by (intro disjI2 exI [of _ "[]"] conjI) simp_all
  next
    case c
    from process_dates_trace [of e "normalize cfg0" ?ds 0 ?wb] obtain ops where
      o: "trace (snd (process_dates e (normalize cfg0) ?ds 0 ?wb)) = trace ?wb @ ops"
        "\<forall>op \<in> set ops. \<exists>d \<in> set ?ds. unit_op (normalize cfg0) d op" by blast
    have "new_ops w (snd (process_kind e cfg0 w)) = ?L1 # ?L2 # ops"
      unfolding c new_ops_def o(1) by simp
    moreover have "\<forall>op \<in> set ops. \<exists>d. unit_op (normalize cfg0) d op" using o(2) by blast
    ultimately show ?thesis by blast
  qed
qed

lemma process_kind_store:
  "(map_of (store (snd (process_kind e cfg0 w))) bk = map_of (store w) bk
      \<or> (\<exists>d. unit_key (normalize cfg0) d bk))
   \<and> (map_of (store w) bk \<noteq> None \<longrightarrow> map_of (store (snd (process_kind e cfg0 w))) bk \<noteq> None)"
proof -
  let ?L1 = "ListObjects (in_bucket cfg0) (in_prefix (normalize cfg0))"
  let ?L2 = "ListObjects (out_bucket cfg0) (marker_prefix (normalize cfg0))"
  let ?wb = "w\<lparr>trace := trace w @ [?L1, ?L2]\<rparr>"
  let ?ds = "missing_dates_of
                (listed (in_bucket cfg0) (in_prefix (normalize cfg0)) ''.parquet'' (store w))
                (listed (out_bucket cfg0) (marker_prefix (normalize cfg0)) ''.json'' (store w))"
  from process_kind_world [of e cfg0 w]
  consider (a) "snd (process_kind e cfg0 w) = w\<lparr>trace := trace w @ [?L1]\<rparr>"
    | (b) "snd (process_kind e cfg0 w) = ?wb"
    | (c) "snd (process_kind e cfg0 w) = snd (process_dates e (normalize cfg0) ?ds 0 ?wb)"
    by blast
  then show ?thesis
  proof cases
    case a
    then show ?thesis by simp
  next
    case b
    then show ?thesis by simp
  next
    case c
    from process_dates_store [of e "normalize cfg0" ?ds 0 ?wb bk]
    show ?thesis unfolding c by auto
  qed
qed

end
